theory Spec2Isabelle
  imports Main
begin

section \<open>JavaScript values and the runtime operations the converter uses\<close>

text \<open>
  The converter takes a value of TypeScript type \<open>any\<close>: the parsed JSON of a page. A
  value is therefore one of the JSON shapes, plus \<open>undefined\<close> for a property that is
  not there. An object is its list of own properties (the first binding of a key is the
  one that counts). Numbers are the integer-valued ones; \<open>JNum n\<close> stands for the double
  with value \<open>n\<close>.

  Strings are sequences of bytes, the UTF-8 encoding of the text.
\<close>

datatype jsval =
    JUndefined
  | JNull
  | JBool bool
  | JNum int
  | JStr string
  | JArr "jsval list"
  | JObj "(string \<times> jsval) list"

text \<open>
  \<open>TypeError\<close> and \<open>RangeError\<close> are the two exceptions the runtime can throw in this
  code. \<open>Unmodelled\<close> is not an exception: it marks the few inputs on which the result
  depends on floating-point parsing or on Unicode case tables, which this embedding does
  not cover (a heading level given as a string or an array, a number beyond the safe
  integers turned into text, a callout type with letters outside ASCII).
\<close>

datatype error = TypeError | RangeError | Unmodelled

definition andThen :: "error + 'a \<Rightarrow> ('a \<Rightarrow> error + 'b) \<Rightarrow> error + 'b" where
  "andThen m f = (case m of Inl e \<Rightarrow> Inl e | Inr x \<Rightarrow> f x)"

fun traverse :: "('a \<Rightarrow> error + 'b) \<Rightarrow> 'a list \<Rightarrow> error + 'b list" where
  "traverse f [] = Inr []"
| "traverse f (x # xs) =
     andThen (f x) (\<lambda>y. andThen (traverse f xs) (\<lambda>ys. Inr (y # ys)))"

lemma andThen_cong [fundef_cong]:
  "m = m' \<Longrightarrow> (\<And>x. m' = Inr x \<Longrightarrow> f x = g x) \<Longrightarrow> andThen m f = andThen m' g"
  by (auto simp: andThen_def split: sum.splits)

lemma traverse_cong [fundef_cong]:
  "xs = ys \<Longrightarrow> (\<And>x. x \<in> set ys \<Longrightarrow> f x = g x) \<Longrightarrow> traverse f xs = traverse g ys"
  by (induction ys arbitrary: xs) (auto simp: andThen_def)

text \<open>\<open>!v\<close> is \<open>\<not> truthy v\<close>; \<open>a || b\<close> is \<open>js_or a b\<close>.\<close>

fun truthy :: "jsval \<Rightarrow> bool" where
  "truthy JUndefined = False"
| "truthy JNull = False"
| "truthy (JBool b) = b"
| "truthy (JNum n) = (n \<noteq> 0)"
| "truthy (JStr s) = (s \<noteq> [])"
| "truthy (JArr xs) = True"
| "truthy (JObj kvs) = True"

definition js_or :: "jsval \<Rightarrow> jsval \<Rightarrow> jsval" where
  "js_or a b = (if truthy a then a else b)"

definition nullish :: "jsval \<Rightarrow> bool" where
  "nullish v = (v = JUndefined \<or> v = JNull)"

text \<open>
  Property access. \<open>get v k\<close> reads \<open>v.k\<close> of a value that is neither \<open>null\<close> nor
  \<open>undefined\<close>: none of the property names the converter reads exists on a string, a
  number, a boolean or an array, so only an object can answer. \<open>property v k\<close> is \<open>v.k\<close> on
  any value, and \<open>opt_prop v k\<close> is \<open>v?.k\<close>.
\<close>

fun get :: "jsval \<Rightarrow> string \<Rightarrow> jsval" where
  "get (JObj kvs) k = (case map_of kvs k of Some v \<Rightarrow> v | None \<Rightarrow> JUndefined)"
| "get v k = JUndefined"

definition property :: "jsval \<Rightarrow> string \<Rightarrow> error + jsval" where
  "property v k = (if nullish v then Inl TypeError else Inr (get v k))"

definition opt_prop :: "jsval \<Rightarrow> string \<Rightarrow> jsval" where
  "opt_prop v k = (if nullish v then JUndefined else get v k)"

text \<open>\<open>node.attrs?.k\<close>, for a node that is neither \<open>null\<close> nor \<open>undefined\<close>.\<close>

definition attr :: "jsval \<Rightarrow> string \<Rightarrow> jsval" where
  "attr node k = opt_prop (get node ''attrs'') k"

subsection \<open>Strings\<close>

fun join_strings :: "string list \<Rightarrow> string \<Rightarrow> string" where
  "join_strings [] sep = []"
| "join_strings [s] sep = s"
| "join_strings (s # t # ss) sep = s @ sep @ join_strings (t # ss) sep"

definition digit :: "nat \<Rightarrow> char" where
  "digit d = char_of (of_char (CHR ''0'') + d)"

function decimal :: "nat \<Rightarrow> string" where
  "decimal n = (if n < 10 then [digit n] else decimal (n div 10) @ [digit (n mod 10)])"
  by pat_completeness auto
termination
  by (relation "measure id") auto

declare decimal.simps [simp del]

text \<open>
  \<open>to_string\<close> is the conversion a template literal, \<open>+\<close> with a string and \<open>join\<close>
  apply. An array joins its elements with a comma, \<open>null\<close> and \<open>undefined\<close> elements
  giving the empty string. A plain object gives \<open>[object Object]\<close>, unless it has an own
  property \<open>toString\<close>: parsed JSON holds no function, so the conversion then finds no
  callable method and throws.
\<close>

fun to_string :: "jsval \<Rightarrow> error + string" where
  "to_string JUndefined = Inr ''undefined''"
| "to_string JNull = Inr ''null''"
| "to_string (JBool b) = Inr (if b then ''true'' else ''false'')"
| "to_string (JNum n) =
     (if \<bar>n\<bar> < 2 ^ 53
      then Inr (if n < 0 then ''-'' @ decimal (nat (- n)) else decimal (nat n))
      else Inl Unmodelled)"
| "to_string (JStr s) = Inr s"
| "to_string (JArr xs) =
     andThen (traverse (\<lambda>x. if nullish x then Inr [] else to_string x) xs)
       (\<lambda>ss. Inr (join_strings ss '',''))"
| "to_string (JObj kvs) =
     (if map_of kvs ''toString'' \<noteq> None then Inl TypeError else Inr ''[object Object]'')"

text \<open>\<open>xs.join(sep)\<close> on an array of values.\<close>

definition js_join :: "jsval list \<Rightarrow> string \<Rightarrow> error + string" where
  "js_join xs sep =
     andThen (traverse (\<lambda>x. if nullish x then Inr [] else to_string x) xs)
       (\<lambda>ss. Inr (join_strings ss sep))"

text \<open>
  \<open>v.map(f)\<close>: only an array has \<open>map\<close>; on any other value the call throws. The
  callback runs on the elements from left to right and the first exception ends the call.
\<close>

definition elements :: "jsval \<Rightarrow> error + jsval list" where
  "elements v = (case v of JArr xs \<Rightarrow> Inr xs | _ \<Rightarrow> Inl TypeError)"

definition js_map :: "(jsval \<Rightarrow> error + 'b) \<Rightarrow> jsval \<Rightarrow> error + 'b list" where
  "js_map f v = andThen (elements v) (traverse f)"

text \<open>\<open>v.map(f).join(sep)\<close>, as a string value.\<close>

definition map_join :: "(jsval \<Rightarrow> error + jsval) \<Rightarrow> jsval \<Rightarrow> string \<Rightarrow> error + string" where
  "map_join f v sep = andThen (js_map f v) (\<lambda>rs. js_join rs sep)"

text \<open>\<open>s.replace(/\n/g, r)\<close>: every newline of \<open>s\<close> becomes \<open>r\<close>.\<close>

fun replace_newlines :: "string \<Rightarrow> string \<Rightarrow> string" where
  "replace_newlines [] r = []"
| "replace_newlines (c # s) r =
     (if c = CHR 0x0A then r @ replace_newlines s r else c # replace_newlines s r)"

text \<open>
  \<open>v.toUpperCase()\<close>: only a string has the method. A string with a byte outside ASCII
  is left to \<open>Unmodelled\<close>.
\<close>

definition upper_char :: "char \<Rightarrow> char" where
  "upper_char c =
     (if of_char (CHR ''a'') \<le> (of_char c :: nat) \<and> (of_char c :: nat) \<le> of_char (CHR ''z'')
      then char_of ((of_char c :: nat) - 32) else c)"

definition toUpperCase :: "jsval \<Rightarrow> error + string" where
  "toUpperCase v =
     (case v of
        JStr s \<Rightarrow> if list_all (\<lambda>c. (of_char c :: nat) < 128) s then Inr (map upper_char s)
                  else Inl Unmodelled
      | _ \<Rightarrow> Inl TypeError)"

text \<open>
  \<open>"#".repeat(v)\<close>: the count is the number \<open>v\<close> converts to; a negative count throws.
  A boolean counts as 0 or 1, \<open>undefined\<close>, \<open>null\<close> and a plain object as 0; what a
  string or an array converts to is left to \<open>Unmodelled\<close>. The argument is always truthy
  here (\<open>level || 1\<close>).
\<close>

definition repeat_hash :: "jsval \<Rightarrow> error + string" where
  "repeat_hash v =
     (case v of
        JNum n \<Rightarrow> if n < 0 then Inl RangeError else Inr (replicate (nat n) (CHR ''#''))
      | JBool b \<Rightarrow> Inr (replicate (if b then 1 else 0) (CHR ''#''))
      | JObj kvs \<Rightarrow> if map_of kvs ''toString'' \<noteq> None then Inl TypeError else Inr []
      | JUndefined \<Rightarrow> Inr []
      | JNull \<Rightarrow> Inr []
      | _ \<Rightarrow> Inl Unmodelled)"

text \<open>
  \<open>s.trim()\<close> removes the white space and line terminators of the language from both
  ends; they are listed here by their UTF-8 encodings.
\<close>

definition white_space :: "string list" where
  "white_space =
     [[CHR 0x09], [CHR 0x0A], [CHR 0x0B], [CHR 0x0C], [CHR 0x0D], [CHR 0x20],
      [CHR 0xC2, CHR 0xA0],
      [CHR 0xE1, CHR 0x9A, CHR 0x80],
      [CHR 0xE2, CHR 0x80, CHR 0x80], [CHR 0xE2, CHR 0x80, CHR 0x81],
      [CHR 0xE2, CHR 0x80, CHR 0x82], [CHR 0xE2, CHR 0x80, CHR 0x83],
      [CHR 0xE2, CHR 0x80, CHR 0x84], [CHR 0xE2, CHR 0x80, CHR 0x85],
      [CHR 0xE2, CHR 0x80, CHR 0x86], [CHR 0xE2, CHR 0x80, CHR 0x87],
      [CHR 0xE2, CHR 0x80, CHR 0x88], [CHR 0xE2, CHR 0x80, CHR 0x89],
      [CHR 0xE2, CHR 0x80, CHR 0x8A],
      [CHR 0xE2, CHR 0x80, CHR 0xA8], [CHR 0xE2, CHR 0x80, CHR 0xA9],
      [CHR 0xE2, CHR 0x80, CHR 0xAF],
      [CHR 0xE2, CHR 0x81, CHR 0x9F],
      [CHR 0xE3, CHR 0x80, CHR 0x80],
      [CHR 0xEF, CHR 0xBB, CHR 0xBF]]"

fun is_prefix :: "string \<Rightarrow> string \<Rightarrow> bool" where
  "is_prefix [] s = True"
| "is_prefix (c # p) [] = False"
| "is_prefix (c # p) (d # s) = (c = d \<and> is_prefix p s)"

lemma is_prefix_length: "is_prefix w s \<Longrightarrow> length w \<le> length s"
  by (induction w s rule: is_prefix.induct) auto

lemma white_space_nonempty: "w \<in> set white_space \<Longrightarrow> w \<noteq> []"
  by (auto simp: white_space_def)

text \<open>The white-space character a string starts with, and the one it ends with.\<close>

definition leading_space :: "string \<Rightarrow> string option" where
  "leading_space s = find (\<lambda>w. is_prefix w s) white_space"

definition trailing_space :: "string \<Rightarrow> string option" where
  "trailing_space s = find (\<lambda>w. is_prefix (rev w) (rev s)) white_space"

lemma leading_space_Some:
  "leading_space s = Some w \<Longrightarrow> w \<in> set white_space \<and> is_prefix w s"
  by (auto simp: leading_space_def find_Some_iff)

lemma trailing_space_Some:
  "trailing_space s = Some w \<Longrightarrow> w \<in> set white_space \<and> is_prefix (rev w) (rev s)"
  by (auto simp: trailing_space_def find_Some_iff)

function trimStart :: "string \<Rightarrow> string" where
  "trimStart s =
     (case leading_space s of
        None \<Rightarrow> s
      | Some w \<Rightarrow> trimStart (drop (length w) s))"
  by pat_completeness auto
termination
proof (relation "measure length")
  fix s w
  assume "leading_space s = Some w"
  then have "w \<noteq> []" and "length w \<le> length s"
    using leading_space_Some white_space_nonempty is_prefix_length by blast+
  then show "(drop (length w) s, s) \<in> measure length"
    by (cases w) auto
qed simp

function trimEnd :: "string \<Rightarrow> string" where
  "trimEnd s =
     (case trailing_space s of
        None \<Rightarrow> s
      | Some w \<Rightarrow> trimEnd (take (length s - length w) s))"
  by pat_completeness auto
termination
proof (relation "measure length")
  fix s w
  assume "trailing_space s = Some w"
  then have "w \<noteq> []" and "length (rev w) \<le> length (rev s)"
    using trailing_space_Some white_space_nonempty is_prefix_length by blast+
  then show "(take (length s - length w) s, s) \<in> measure length"
    by (cases w) auto
qed simp

declare trimStart.simps [simp del] trimEnd.simps [simp del]

definition trim :: "string \<Rightarrow> string" where
  "trim s = trimEnd (trimStart s)"

section \<open>The converter\<close>

text \<open>
  The labels of the media rules begin with a few characters outside ASCII. Each prefix is
  given here by the bytes the source file holds for it (these are UTF-8 text); no rule
  looks inside them.
\<close>

definition video_icon :: string where
  "video_icon = [CHR 0xC3, CHR 0xB0, CHR 0xC5, CHR 0xB8, CHR 0xC5, CHR 0xBD, CHR 0xC2, CHR 0xA5]"

definition youtube_icon :: string where
  "youtube_icon =
     [CHR 0xC3, CHR 0xB0, CHR 0xC5, CHR 0xB8, CHR 0xE2, CHR 0x80, CHR 0x9C, CHR 0xC2, CHR 0xBA]"

definition attachment_icon :: string where
  "attachment_icon =
     [CHR 0xC3, CHR 0xB0, CHR 0xC5, CHR 0xB8, CHR 0xE2, CHR 0x80, CHR 0x9C, CHR 0xC5, CHR 0xBD]"

definition drawio_icon :: string where
  "drawio_icon =
     [CHR 0xC3, CHR 0xB0, CHR 0xC5, CHR 0xB8, CHR 0xE2, CHR 0x80, CHR 0x9C, CHR 0xC5, CHR 0xA0]"

definition excalidraw_icon :: string where
  "excalidraw_icon =
     [CHR 0xC3, CHR 0xA2, CHR 0xC5, CHR 0x93, CHR 0xC3, CHR 0xAF, CHR 0xC2, CHR 0xB8]"

definition embed_icon :: string where
  "embed_icon =
     [CHR 0xC3, CHR 0xB0, CHR 0xC5, CHR 0xB8, CHR 0xE2, CHR 0x80, CHR 0x9D,
      CHR 0xE2, CHR 0x80, CHR 0x94]"

definition subpages_icon :: string where
  "subpages_icon =
     [CHR 0xC3, CHR 0xB0, CHR 0xC5, CHR 0xB8, CHR 0xE2, CHR 0x80, CHR 0x9C,
      CHR 0xE2, CHR 0x80, CHR 0x98]"

text \<open>
  The body of the loop over \<open>node.marks\<close>: one mark re-wraps the current text. A
  template literal converts what it interpolates, from left to right.
\<close>

definition applyMark :: "jsval \<Rightarrow> jsval \<Rightarrow> error + jsval" where
  \<open>applyMark textContent mark =
     andThen (property mark ''type'') (\<lambda>ty.
       if ty = JStr ''bold'' then
         andThen (to_string textContent) (\<lambda>s. Inr (JStr (''**'' @ s @ ''**'')))
       else if ty = JStr ''italic'' then
         andThen (to_string textContent) (\<lambda>s. Inr (JStr (''*'' @ s @ ''*'')))
       else if ty = JStr ''code'' then
         andThen (to_string textContent) (\<lambda>s. Inr (JStr (''`'' @ s @ ''`'')))
       else if ty = JStr ''link'' then
         andThen (to_string textContent) (\<lambda>s.
         andThen (to_string (js_or (attr mark ''href'') (JStr ''''))) (\<lambda>h.
           Inr (JStr (''['' @ s @ '']('' @ h @ '')''))))
       else if ty = JStr ''strike'' then
         andThen (to_string textContent) (\<lambda>s. Inr (JStr (''~~'' @ s @ ''~~'')))
       else if ty = JStr ''underline'' then
         andThen (to_string textContent) (\<lambda>s. Inr (JStr (''<u>'' @ s @ ''</u>'')))
       else if ty = JStr ''subscript'' then
         andThen (to_string textContent) (\<lambda>s. Inr (JStr (''<sub>'' @ s @ ''</sub>'')))
       else if ty = JStr ''superscript'' then
         andThen (to_string textContent) (\<lambda>s. Inr (JStr (''<sup>'' @ s @ ''</sup>'')))
       else if ty = JStr ''highlight'' then
         (let color = js_or (attr mark ''color'') (JStr ''yellow'') in
          andThen (to_string color) (\<lambda>c.
          andThen (to_string textContent) (\<lambda>s.
            Inr (JStr (''<mark style="background-color: '' @ c @ ''">'' @ s @ ''</mark>'')))))
       else if ty = JStr ''textStyle'' then
         (if truthy (attr mark ''color'') then
            andThen (to_string (attr mark ''color'')) (\<lambda>c.
            andThen (to_string textContent) (\<lambda>s.
              Inr (JStr (''<span style="color: '' @ c @ ''">'' @ s @ ''</span>''))))
          else Inr textContent)
       else Inr textContent)\<close>

fun applyMarks :: "jsval \<Rightarrow> jsval list \<Rightarrow> error + jsval" where
  "applyMarks textContent [] = Inr textContent"
| "applyMarks textContent (mark # marks) =
     andThen (applyMark textContent mark) (\<lambda>t. applyMarks t marks)"

text \<open>
  \<open>for (const mark of v)\<close>: an array gives its elements; a string gives one string per
  character (the loop body then reads \<open>.type\<close> of a string, which is \<open>undefined\<close>);
  nothing else that is truthy in parsed JSON can be iterated.
\<close>

definition iterate :: "jsval \<Rightarrow> error + jsval list" where
  "iterate v =
     (case v of
        JArr xs \<Rightarrow> Inr xs
      | JStr s \<Rightarrow> Inr (map (\<lambda>c. JStr [c]) s)
      | _ \<Rightarrow> Inl TypeError)"

text \<open>\<open>xs.map((x, i) => f(x, i))\<close> on a list and on a value.\<close>

definition mapi :: "('a \<Rightarrow> nat \<Rightarrow> error + 'b) \<Rightarrow> 'a list \<Rightarrow> error + 'b list" where
  "mapi f xs = traverse (\<lambda>(x, i). f x i) (zip xs [0..<length xs])"

definition js_mapi :: "(jsval \<Rightarrow> nat \<Rightarrow> error + 'b) \<Rightarrow> jsval \<Rightarrow> error + 'b list" where
  "js_mapi f v = andThen (elements v) (mapi f)"

lemma js_map_cong [fundef_cong]:
  "v = w \<Longrightarrow> (\<And>xs x. w = JArr xs \<Longrightarrow> x \<in> set xs \<Longrightarrow> f x = g x) \<Longrightarrow> js_map f v = js_map g w"
  by (cases w) (auto simp: js_map_def elements_def andThen_def cong: traverse_cong)

lemma map_join_cong [fundef_cong]:
  "v = w \<Longrightarrow> sep = sep' \<Longrightarrow> (\<And>xs x. w = JArr xs \<Longrightarrow> x \<in> set xs \<Longrightarrow> f x = g x)
   \<Longrightarrow> map_join f v sep = map_join g w sep'"
  unfolding map_join_def by (simp cong: js_map_cong)

lemma js_mapi_cong [fundef_cong]:
  "v = w \<Longrightarrow> (\<And>xs x i. w = JArr xs \<Longrightarrow> x \<in> set xs \<Longrightarrow> f x i = g x i)
   \<Longrightarrow> js_mapi f v = js_mapi g w"
  by (cases w)
     (auto simp: js_mapi_def mapi_def elements_def andThen_def
           intro!: traverse_cong dest: set_zip_leftD)

lemma size_get: "get node k = JArr xs \<Longrightarrow> x \<in> set xs \<Longrightarrow> size x < size node"
proof (cases node)
  case (JObj kvs)
  assume g: "get node k = JArr xs" and x: "x \<in> set xs"
  from g JObj have "map_of kvs k = Some (JArr xs)"
    by (auto split: option.splits)
  then have "(k, JArr xs) \<in> set kvs"
    by (rule map_of_SomeD)
  then have "size (JArr xs) < size (JObj kvs)"
    by (induction kvs) auto
  moreover have "size x < size (JArr xs)"
    using x by (induction xs) auto
  ultimately show ?thesis
    using JObj by simp
qed auto

lemma js_or_empty_array: "js_or c (JArr []) = JArr xs \<Longrightarrow> x \<in> set xs \<Longrightarrow> c = JArr xs"
  by (auto simp: js_or_def split: if_splits)

lemma size_content:
  "JArr xs = js_or (get node k) (JArr []) \<Longrightarrow> x \<in> set xs \<Longrightarrow> size x < size node"
  using js_or_empty_array [of "get node k" xs x] size_get [of node k xs x] by simp

lemma size_property_content:
  "property item k = Inr c \<Longrightarrow> JArr xs = js_or c (JArr []) \<Longrightarrow> x \<in> set xs
   \<Longrightarrow> size x < size item"
  by (auto simp: property_def split: if_splits dest: size_content)

text \<open>
  \<open>processNode\<close> with its two helpers. \<open>node.type\<close> is the first thing read, so a
  \<open>null\<close> or \<open>undefined\<close> node throws there; after it the node is known to be
  neither. A rule that does not look at \<open>nodeContent\<close> does not render the children.
\<close>

function processNode :: "jsval \<Rightarrow> error + jsval"
  and processListItem :: "jsval \<Rightarrow> string \<Rightarrow> error + string"
  and processTaskItem :: "jsval \<Rightarrow> error + string"
where
  \<open>processNode node =
     andThen (property node ''type'') (\<lambda>ty.
       let nodeContent = js_or (get node ''content'') (JArr []) in
       if ty = JStr ''doc'' then
         andThen (map_join processNode nodeContent ''\<newline>\<newline>'') (\<lambda>s. Inr (JStr s))
       else if ty = JStr ''paragraph'' then
         andThen (map_join processNode nodeContent '''') (\<lambda>text.
           let align = attr node ''textAlign'' in
           if truthy align \<and> align \<noteq> JStr ''left'' then
             andThen (to_string align) (\<lambda>a.
               Inr (JStr (''<div align="'' @ a @ ''">'' @ text @ ''</div>'')))
           else Inr (js_or (JStr text) (JStr '''')))
       else if ty = JStr ''heading'' then
         (let level = js_or (attr node ''level'') (JNum 1) in
          andThen (map_join processNode nodeContent '''') (\<lambda>headingText.
          andThen (repeat_hash level) (\<lambda>hashes.
            Inr (JStr (hashes @ '' '' @ headingText)))))
       else if ty = JStr ''text'' then
         (let textContent = js_or (get node ''text'') (JStr '''') in
          if truthy (get node ''marks'') then
            andThen (iterate (get node ''marks'')) (applyMarks textContent)
          else Inr textContent)
       else if ty = JStr ''codeBlock'' then
         (let language = js_or (attr node ''language'') (JStr '''') in
          andThen (map_join processNode nodeContent '''') (\<lambda>code.
          andThen (to_string language) (\<lambda>l.
            Inr (JStr (''```'' @ l @ ''\<newline>'' @ code @ ''\<newline>```'')))))
       else if ty = JStr ''bulletList'' then
         andThen (js_map (\<lambda>item. processListItem item ''-'') nodeContent) (\<lambda>items.
           Inr (JStr (join_strings items ''\<newline>'')))
       else if ty = JStr ''orderedList'' then
         andThen (js_mapi (\<lambda>item index. processListItem item (decimal (index + 1) @ ''.''))
                    nodeContent) (\<lambda>items.
           Inr (JStr (join_strings items ''\<newline>'')))
       else if ty = JStr ''taskList'' then
         andThen (js_map (\<lambda>item. processTaskItem item) nodeContent) (\<lambda>items.
           Inr (JStr (join_strings items ''\<newline>'')))
       else if ty = JStr ''taskItem'' then
         (let checked = js_or (attr node ''checked'') (JBool False);
              checkbox = (if truthy checked then ''[x]'' else ''[ ]'') in
          andThen (map_join processNode nodeContent ''\<newline>'') (\<lambda>s.
            Inr (JStr (''- '' @ checkbox @ '' '' @ s))))
       else if ty = JStr ''listItem'' then
         andThen (map_join processNode nodeContent ''\<newline>'') (\<lambda>s. Inr (JStr s))
       else if ty = JStr ''blockquote'' then
         andThen (js_map (\<lambda>n. andThen (processNode n) (\<lambda>r.
                            andThen (to_string r) (\<lambda>s. Inr (''> '' @ s)))) nodeContent)
           (\<lambda>quoted. Inr (JStr (join_strings quoted ''\<newline>'')))
       else if ty = JStr ''horizontalRule'' then Inr (JStr ''---'')
       else if ty = JStr ''hardBreak'' then Inr (JStr ''\<newline>'')
       else if ty = JStr ''image'' then
         (let imgAlt = js_or (attr node ''alt'') (JStr '''');
              imgSrc = js_or (attr node ''src'') (JStr '''');
              imgCaption = js_or (attr node ''caption'') (JStr '''') in
          andThen (to_string imgAlt) (\<lambda>alt.
          andThen (to_string imgSrc) (\<lambda>src.
          andThen (if truthy imgCaption
                   then andThen (to_string imgCaption) (\<lambda>c. Inr (''\<newline>*'' @ c @ ''*''))
                   else Inr '''') (\<lambda>caption.
            Inr (JStr (''!['' @ alt @ '']('' @ src @ '')'' @ caption))))))
       else if ty = JStr ''video'' then
         (let videoSrc = js_or (attr node ''src'') (JStr '''') in
          andThen (to_string videoSrc) (\<lambda>src.
            Inr (JStr (video_icon @ '' [Video]('' @ src @ '')''))))
       else if ty = JStr ''youtube'' then
         (let youtubeUrl = js_or (attr node ''src'') (JStr '''') in
          andThen (to_string youtubeUrl) (\<lambda>url.
            Inr (JStr (youtube_icon @ '' [YouTube Video]('' @ url @ '')''))))
       else if ty = JStr ''table'' then
         andThen (map_join processNode nodeContent ''\<newline>'') (\<lambda>s. Inr (JStr s))
       else if ty = JStr ''tableRow'' then
         andThen (map_join processNode nodeContent '' | '') (\<lambda>s.
           Inr (JStr (''| '' @ s @ '' |'')))
       else if ty = JStr ''tableCell'' \<or> ty = JStr ''tableHeader'' then
         andThen (map_join processNode nodeContent '''') (\<lambda>s. Inr (JStr s))
       else if ty = JStr ''callout'' then
         (let calloutType = js_or (attr node ''type'') (JStr ''info'') in
          andThen (map_join processNode nodeContent ''\<newline>'') (\<lambda>calloutContent.
          andThen (toUpperCase calloutType) (\<lambda>upper.
            Inr (JStr (''> **'' @ upper @ ''**\<newline>> ''
                       @ replace_newlines calloutContent ''\<newline>> '')))))
       else if ty = JStr ''details'' then
         andThen (map_join processNode nodeContent ''\<newline>'') (\<lambda>s. Inr (JStr s))
       else if ty = JStr ''detailsSummary'' then
         andThen (map_join processNode nodeContent '''') (\<lambda>summaryText.
           Inr (JStr (''<details>\<newline><summary>'' @ summaryText @ ''</summary>\<newline>'')))
       else if ty = JStr ''detailsContent'' then
         andThen (map_join processNode nodeContent ''\<newline>'') (\<lambda>detailsText.
           Inr (JStr (detailsText @ ''\<newline></details>'')))
       else if ty = JStr ''mathInline'' then
         (let inlineMath = js_or (attr node ''latex'') (JStr '''') in
          andThen (to_string inlineMath) (\<lambda>m. Inr (JStr (''$'' @ m @ ''$''))))
       else if ty = JStr ''mathBlock'' then
         (let blockMath = js_or (attr node ''latex'') (JStr '''') in
          andThen (to_string blockMath) (\<lambda>m.
            Inr (JStr (''$$\<newline>'' @ m @ ''\<newline>$$''))))
       else if ty = JStr ''mention'' then
         (let mentionLabel =
                js_or (js_or (attr node ''label'') (attr node ''id'')) (JStr '''') in
          andThen (to_string mentionLabel) (\<lambda>l. Inr (JStr (''@'' @ l))))
       else if ty = JStr ''attachment'' then
         (let attachmentName = js_or (attr node ''fileName'') (JStr ''attachment'');
              attachmentUrl = js_or (attr node ''src'') (JStr '''') in
          andThen (to_string attachmentName) (\<lambda>name.
          andThen (to_string attachmentUrl) (\<lambda>url.
            Inr (JStr (attachment_icon @ '' ['' @ name @ '']('' @ url @ '')'')))))
       else if ty = JStr ''drawio'' then
         Inr (JStr (drawio_icon @ '' [Draw.io Diagram]''))
       else if ty = JStr ''excalidraw'' then
         Inr (JStr (excalidraw_icon @ '' [Excalidraw Drawing]''))
       else if ty = JStr ''embed'' then
         (let embedUrl = js_or (attr node ''src'') (JStr '''') in
          andThen (to_string embedUrl) (\<lambda>url.
            Inr (JStr (embed_icon @ '' [Embedded Content]('' @ url @ '')''))))
       else if ty = JStr ''subpages'' then
         Inr (JStr (subpages_icon @ '' [Subpages List]''))
       else
         andThen (map_join processNode nodeContent '''') (\<lambda>s. Inr (JStr s)))\<close>
| \<open>processListItem item prefix =
     andThen (property item ''content'') (\<lambda>c.
       let itemContent = js_or c (JArr []) in
       andThen (js_map processNode itemContent) (\<lambda>lines.
       andThen (mapi (\<lambda>line i. andThen (to_string line) (\<lambda>l.
                        Inr (if i = 0 then prefix @ '' '' @ l else ''  '' @ l))) lines)
         (\<lambda>ls. Inr (join_strings ls ''\<newline>''))))\<close>
| \<open>processTaskItem item =
     andThen (property item ''attrs'') (\<lambda>attrs.
       let checked = js_or (opt_prop attrs ''checked'') (JBool False);
           checkbox = (if truthy checked then ''[x]'' else ''[ ]'');
           itemContent = js_or (get item ''content'') (JArr []) in
       andThen (map_join processNode itemContent '''') (\<lambda>text.
         Inr (''- '' @ checkbox @ '' '' @ text)))\<close>
  by pat_completeness auto

termination
  apply (relation "measure (\<lambda>call. case call of
                   Inl node \<Rightarrow> size node
                 | Inr (Inl (item, prefix)) \<Rightarrow> size item
                 | Inr (Inr item) \<Rightarrow> size item)")
   apply simp
  apply (simp_all only: in_measure sum.case prod.case)
  apply (rule size_content size_property_content; assumption)+
  done

declare processNode.simps [simp del] processListItem.simps [simp del]
  processTaskItem.simps [simp del]

text \<open>
  The entry point. The guard \<open>!content || !content.content\<close> reads \<open>content.content\<close>
  only when \<open>content\<close> is truthy. The result of \<open>processNode\<close> has a \<open>trim\<close> method
  only when it is a string.
\<close>

definition convertProseMirrorToMarkdown :: "jsval \<Rightarrow> error + string" where
  "convertProseMirrorToMarkdown content =
     (if truthy content then
        if truthy (get content ''content'') then
          andThen (processNode content) (\<lambda>r.
            case r of JStr s \<Rightarrow> Inr (trim s) | _ \<Rightarrow> Inl TypeError)
        else Inr ''''
      else Inr '''')"

section \<open>The caller's substitution of the sub-page placeholder\<close>

text \<open>
  \<open>getPage\<close> converts the page and then runs the block commented \<open>Resolve subpages if
  the placeholder exists\<close>. That block is \<open>resolveSubpages\<close>: \<open>content\<close> is the converted
  text and \<open>subpages\<close> the list of child pages fetched for the page.

  \<open>s.includes(p)\<close> and \<open>s.replace(p, r)\<close> with a string pattern: the first occurrence
  of \<open>p\<close> is replaced, and in \<open>r\<close> the patterns \<open>$$\<close>, \<open>$&\<close>, \<open>$`\<close> and \<open>$'\<close> stand
  for a dollar sign, the match, the text before it and the text after it.
\<close>

fun js_includes :: "string \<Rightarrow> string \<Rightarrow> bool" where
  "js_includes [] p = (p = [])"
| "js_includes (c # s) p = (if is_prefix p (c # s) then True else js_includes s p)"

fun get_substitution :: "string \<Rightarrow> string \<Rightarrow> string \<Rightarrow> string \<Rightarrow> string" where
  "get_substitution matched preceding following [] = []"
| "get_substitution matched preceding following [c] = [c]"
| "get_substitution matched preceding following (c # d # r) =
     (if c = CHR ''$'' \<and> d = CHR ''$'' then
        CHR ''$'' # get_substitution matched preceding following r
      else if c = CHR ''$'' \<and> d = CHR ''&'' then
        matched @ get_substitution matched preceding following r
      else if c = CHR ''$'' \<and> d = CHR ''`'' then
        preceding @ get_substitution matched preceding following r
      else if c = CHR ''$'' \<and> d = CHR 0x27 then
        following @ get_substitution matched preceding following r
      else c # get_substitution matched preceding following (d # r))"

fun replace_from :: "string \<Rightarrow> string \<Rightarrow> string \<Rightarrow> string \<Rightarrow> string" where
  "replace_from preceding [] p r =
     (if p = [] then preceding @ get_substitution p preceding [] r else preceding)"
| "replace_from preceding (c # s) p r =
     (if is_prefix p (c # s) then
        preceding @ get_substitution p preceding (drop (length p) (c # s)) r
          @ drop (length p) (c # s)
      else replace_from (preceding @ [c]) s p r)"

definition js_replace :: "string \<Rightarrow> string \<Rightarrow> string \<Rightarrow> string" where
  "js_replace s p r = replace_from [] s p r"

definition resolveSubpages :: "string \<Rightarrow> jsval list \<Rightarrow> error + string" where
  "resolveSubpages content subpages =
     (if content \<noteq> [] \<and> js_includes content ''{{SUBPAGES}}'' then
        if subpages \<noteq> [] then
          andThen (traverse (\<lambda>p.
                     andThen (property p ''title'') (\<lambda>title.
                     andThen (to_string title) (\<lambda>t.
                     andThen (to_string (get p ''id'')) (\<lambda>i.
                       Inr (''- ['' @ t @ ''](page:'' @ i @ '')''))))) subpages) (\<lambda>items.
            Inr (js_replace content ''{{SUBPAGES}}''
                   (''### Subpages\<newline>'' @ join_strings items ''\<newline>'')))
        else Inr (js_replace content ''{{SUBPAGES}}'' '''')
      else Inr content)"

section \<open>Document trees\<close>

text \<open>Builders for the nodes the examples below use.\<close>

definition node_of :: "string \<Rightarrow> jsval list \<Rightarrow> jsval" where
  "node_of ty children = JObj [(''type'', JStr ty), (''content'', JArr children)]"

definition text_of :: "string \<Rightarrow> jsval" where
  "text_of s = JObj [(''type'', JStr ''text''), (''text'', JStr s)]"

definition paragraph_of :: "string \<Rightarrow> jsval" where
  "paragraph_of s = node_of ''paragraph'' [text_of s]"

definition mark_of :: "string \<Rightarrow> jsval" where
  "mark_of kind = JObj [(''type'', JStr kind)]"

text \<open>The lines of a text: the pieces between its newlines.\<close>

fun split_lines :: "string \<Rightarrow> string list" where
  "split_lines [] = [[]]"
| "split_lines (c # s) =
     (if c = CHR 0x0A then [] # split_lines s
      else (c # hd (split_lines s)) # tl (split_lines s))"

text \<open>The type tags \<open>processNode\<close> has a rule for, in the order of its \<open>switch\<close>.\<close>

definition recognized :: "string list" where
  "recognized =
     [''doc'', ''paragraph'', ''heading'', ''text'', ''codeBlock'', ''bulletList'',
      ''orderedList'', ''taskList'', ''taskItem'', ''listItem'', ''blockquote'',
      ''horizontalRule'', ''hardBreak'', ''image'', ''video'', ''youtube'', ''table'',
      ''tableRow'', ''tableCell'', ''tableHeader'', ''callout'', ''details'',
      ''detailsSummary'', ''detailsContent'', ''mathInline'', ''mathBlock'', ''mention'',
      ''attachment'', ''drawio'', ''excalidraw'', ''embed'', ''subpages'']"

text \<open>
  What \<open>processListItem\<close> makes of the renderings of an item's children: the first
  carries the marker, each further one is put behind two spaces.
\<close>

definition item_lines :: "string \<Rightarrow> string list \<Rightarrow> string list" where
  "item_lines prefix rs =
     (case rs of [] \<Rightarrow> [] | r # rest \<Rightarrow> (prefix @ '' '' @ r) # map (\<lambda>l. ''  '' @ l) rest)"

text \<open>
  Well-formed document trees, after the data model of the specification. A node is an
  object with a string \<open>type\<close>. Its \<open>attrs\<close> is absent or a mapping in which every
  attribute named \<open>level\<close> is a number from 1 to 6, every attribute named \<open>type\<close> a
  string of ASCII characters, and every other attribute a string, a boolean, \<open>null\<close>
  or a number below \<open>2 ^ 53\<close> in magnitude. Its \<open>text\<close> is absent or a string; its
  \<open>marks\<close> is absent or a sequence of marks, each an object with a string \<open>type\<close>
  and such \<open>attrs\<close>; its \<open>content\<close> is absent or a sequence of well-formed nodes.
  This is a narrow class: the converter accepts much more (see \<open>convertible\<close> below).
\<close>

definition is_string :: "jsval \<Rightarrow> bool" where
  "is_string v = (case v of JStr s \<Rightarrow> True | _ \<Rightarrow> False)"

definition wf_attr :: "string \<Rightarrow> jsval \<Rightarrow> bool" where
  "wf_attr k v =
     (if k = ''level'' then (case v of JNum n \<Rightarrow> 1 \<le> n \<and> n \<le> 6 | _ \<Rightarrow> False)
      else if k = ''type'' then
        (case v of JStr s \<Rightarrow> list_all (\<lambda>c. (of_char c :: nat) < 128) s | _ \<Rightarrow> False)
      else
        (case v of
           JStr s \<Rightarrow> True
         | JBool b \<Rightarrow> True
         | JNull \<Rightarrow> True
         | JNum n \<Rightarrow> \<bar>n\<bar> < 2 ^ 53
         | _ \<Rightarrow> False))"

definition wf_attrs :: "jsval \<Rightarrow> bool" where
  "wf_attrs a =
     (case a of
        JUndefined \<Rightarrow> True
      | JObj kvs \<Rightarrow> list_all (\<lambda>(k, v). wf_attr k v) kvs
      | _ \<Rightarrow> False)"

definition wf_mark :: "jsval \<Rightarrow> bool" where
  "wf_mark m =
     (case m of
        JObj kvs \<Rightarrow> is_string (get m ''type'') \<and> wf_attrs (get m ''attrs'')
      | _ \<Rightarrow> False)"

definition wf_marks :: "jsval \<Rightarrow> bool" where
  "wf_marks v =
     (case v of JUndefined \<Rightarrow> True | JArr ms \<Rightarrow> list_all wf_mark ms | _ \<Rightarrow> False)"

definition wf_text :: "jsval \<Rightarrow> bool" where
  "wf_text v = (case v of JUndefined \<Rightarrow> True | JStr s \<Rightarrow> True | _ \<Rightarrow> False)"

function well_formed :: "jsval \<Rightarrow> bool" where
  "well_formed node =
     (case node of
        JObj kvs \<Rightarrow>
          is_string (get node ''type'') \<and> wf_attrs (get node ''attrs'')
          \<and> wf_text (get node ''text'') \<and> wf_marks (get node ''marks'')
          \<and> (case get node ''content'' of
                JUndefined \<Rightarrow> True
              | JArr children \<Rightarrow> list_all well_formed children
              | _ \<Rightarrow> False)
      | _ \<Rightarrow> False)"
  by pat_completeness auto
termination
  apply (relation "measure size")
   apply simp
  apply (simp only: in_measure)
  apply (rule size_get; assumption)
  done

declare well_formed.simps [simp del]

text \<open>The text \<open>to_string\<close> gives for a value, when it gives one.\<close>

definition printable :: "jsval \<Rightarrow> bool" where
  "printable v = (case to_string v of Inr s \<Rightarrow> True | Inl e \<Rightarrow> False)"

definition shown :: "jsval \<Rightarrow> string" where
  "shown v = (case to_string v of Inr s \<Rightarrow> s | Inl e \<Rightarrow> [])"

text \<open>
  Two values have the same structure when they are the same tree: equal primitives,
  arrays of the same length with the same elements in order, objects with the same own
  properties holding the same values. The order in which an object lists its properties
  does not count, nor does a binding that an earlier one of the same key hides.
\<close>

definition same_property ::
  "(jsval \<Rightarrow> jsval \<Rightarrow> bool) \<Rightarrow> jsval option \<Rightarrow> jsval option \<Rightarrow> bool" where
  "same_property same x y =
     (case x of
        None \<Rightarrow> (case y of None \<Rightarrow> True | Some w \<Rightarrow> False)
      | Some v \<Rightarrow> (case y of None \<Rightarrow> False | Some w \<Rightarrow> same v w))"

lemma same_property_cong [fundef_cong]:
  "x = x' \<Longrightarrow> y = y' \<Longrightarrow> (\<And>v w. x' = Some v \<Longrightarrow> y' = Some w \<Longrightarrow> f v w = g v w)
   \<Longrightarrow> same_property f x y = same_property g x' y'"
  by (auto simp: same_property_def split: option.splits)

lemma size_map_of: "map_of kvs k = Some v \<Longrightarrow> size v < size (JObj kvs)"
proof -
  assume "map_of kvs k = Some v"
  then have "(k, v) \<in> set kvs"
    by (rule map_of_SomeD)
  then show ?thesis
    by (induction kvs) auto
qed

lemma size_element: "x \<in> set xs \<Longrightarrow> size x < size (JArr xs)"
  by (induction xs) auto

function same_structure :: "jsval \<Rightarrow> jsval \<Rightarrow> bool" where
  "same_structure a b =
     (case a of
        JUndefined \<Rightarrow> b = JUndefined
      | JNull \<Rightarrow> b = JNull
      | JBool x \<Rightarrow> b = JBool x
      | JNum n \<Rightarrow> b = JNum n
      | JStr s \<Rightarrow> b = JStr s
      | JArr xs \<Rightarrow> (case b of JArr ys \<Rightarrow> list_all2 same_structure xs ys | _ \<Rightarrow> False)
      | JObj kvs \<Rightarrow>
          (case b of
             JObj kvs' \<Rightarrow>
               list_all (\<lambda>k. same_property same_structure (map_of kvs k) (map_of kvs' k))
                 (map fst kvs @ map fst kvs')
           | _ \<Rightarrow> False))"
  by pat_completeness auto
termination
  apply (relation "measure (\<lambda>(a, b). size a)")
    apply simp
   apply (simp only: in_measure prod.case)
   apply (erule ssubst, erule size_element)
  apply (simp only: in_measure prod.case)
  apply (erule ssubst, erule size_map_of)
  done

declare same_structure.simps [simp del]

text \<open>
  The decoration of one mark, after the table of the specification (section 4.2): bold,
  italic, code and strike put their delimiters around the text, underline, subscript and
  superscript their tags, highlight a \<open>mark\<close> element styled with \<open>attrs.color\<close>
  (yellow by default), link the text in brackets followed by \<open>attrs.href\<close> in
  parentheses (the empty string by default), textStyle a \<open>span\<close> element styled with
  \<open>attrs.color\<close> when that is present and nothing otherwise; a mark of any other kind
  leaves the text as it is.
\<close>

definition mark_attr :: "jsval \<Rightarrow> string \<Rightarrow> string \<Rightarrow> string" where
  "mark_attr mark k d = (case attr mark k of JStr s \<Rightarrow> s | _ \<Rightarrow> d)"

definition spec_decoration :: "jsval \<Rightarrow> string \<Rightarrow> string" where
  \<open>spec_decoration mark t =
     (let kind = get mark ''type'' in
      if kind = JStr ''bold'' then ''**'' @ t @ ''**''
      else if kind = JStr ''italic'' then ''*'' @ t @ ''*''
      else if kind = JStr ''code'' then ''`'' @ t @ ''`''
      else if kind = JStr ''strike'' then ''~~'' @ t @ ''~~''
      else if kind = JStr ''underline'' then ''<u>'' @ t @ ''</u>''
      else if kind = JStr ''subscript'' then ''<sub>'' @ t @ ''</sub>''
      else if kind = JStr ''superscript'' then ''<sup>'' @ t @ ''</sup>''
      else if kind = JStr ''highlight'' then
        ''<mark style="background-color: '' @ mark_attr mark ''color'' ''yellow'' @ ''">''
          @ t @ ''</mark>''
      else if kind = JStr ''link'' then
        ''['' @ t @ '']('' @ mark_attr mark ''href'' '''' @ '')''
      else if kind = JStr ''textStyle'' then
        (case attr mark ''color'' of
           JStr c \<Rightarrow> ''<span style="color: '' @ c @ ''">'' @ t @ ''</span>''
         | _ \<Rightarrow> t)
      else t)\<close>

text \<open>
  A mark the table speaks of: a value other than \<open>null\<close> and \<open>undefined\<close> whose
  \<open>attrs.href\<close> is absent or a string and whose \<open>attrs.color\<close> is absent or a string
  that is not empty.
\<close>

definition plain_mark :: "jsval \<Rightarrow> bool" where
  "plain_mark mark =
     (\<not> nullish mark
      \<and> (case attr mark ''href'' of JUndefined \<Rightarrow> True | JStr h \<Rightarrow> True | _ \<Rightarrow> False)
      \<and> (case attr mark ''color'' of JUndefined \<Rightarrow> True | JStr c \<Rightarrow> c \<noteq> [] | _ \<Rightarrow> False))"

section \<open>The inputs the converter accepts\<close>

text \<open>
  The converter checks nothing, so whether it returns depends on what the rules do with
  the values they read. The predicates of this section say, rule by rule, which values
  are harmless.

  \<open>stringifiable v\<close>: turning \<open>v\<close> into text (in a template literal, by \<open>+\<close> with a
  string or in \<open>join\<close>) gives a text. The one value of parsed JSON on which the runtime
  throws there is an object with an own property \<open>toString\<close>, by itself or inside
  arrays; the embedding further covers the numbers below \<open>2 ^ 53\<close> in magnitude only.
\<close>

fun stringifiable :: "jsval \<Rightarrow> bool" where
  "stringifiable (JNum n) = (\<bar>n\<bar> < 2 ^ 53)"
| "stringifiable (JArr xs) = list_all stringifiable xs"
| "stringifiable (JObj kvs) = (map_of kvs ''toString'' = None)"
| "stringifiable v = True"

text \<open>
  \<open>repeatable v\<close>: \<open>"#".repeat(v)\<close> gives a text, for the value \<open>v\<close> of
  \<open>attrs.level || 1\<close>: a number that is not negative, \<open>true\<close>, or an object without an
  own property \<open>toString\<close> (which counts as 0). A level that is a string or an array is
  outside the embedding.
\<close>

definition repeatable :: "jsval \<Rightarrow> bool" where
  "repeatable v =
     (case v of
        JNum n \<Rightarrow> 0 \<le> n
      | JBool b \<Rightarrow> True
      | JObj kvs \<Rightarrow> map_of kvs ''toString'' = None
      | JUndefined \<Rightarrow> True
      | JNull \<Rightarrow> True
      | _ \<Rightarrow> False)"

text \<open>
  \<open>upper_case_ok v\<close>: \<open>v.toUpperCase()\<close> gives a text, for the value \<open>v\<close> of
  \<open>attrs.type || "info"\<close>: only a string has the method, and the embedding covers the
  strings of ASCII characters.
\<close>

definition upper_case_ok :: "jsval \<Rightarrow> bool" where
  "upper_case_ok v =
     (case v of JStr s \<Rightarrow> list_all (\<lambda>c. (of_char c :: nat) < 128) s | _ \<Rightarrow> False)"

text \<open>
  A mark is harmless when it is neither \<open>null\<close> nor \<open>undefined\<close> (the loop reads its
  \<open>type\<close>) and the attribute its rule puts into the text is stringifiable: \<open>attrs.href\<close>
  of a link, \<open>attrs.color\<close> of a highlight or a textStyle. A mark is \<open>wrapping\<close> when
  its rule puts something around the text, which every rule does but that of a textStyle
  without a color.
\<close>

definition mark_ok :: "jsval \<Rightarrow> bool" where
  "mark_ok mark =
     (\<not> nullish mark
      \<and> (if get mark ''type'' = JStr ''link'' then stringifiable (attr mark ''href'')
         else if get mark ''type'' = JStr ''highlight'' then stringifiable (attr mark ''color'')
         else if get mark ''type'' = JStr ''textStyle'' then stringifiable (attr mark ''color'')
         else True))"

definition wrapping :: "jsval \<Rightarrow> bool" where
  "wrapping mark =
     (get mark ''type''
        \<in> set [JStr ''bold'', JStr ''italic'', JStr ''code'', JStr ''link'', JStr ''strike'',
               JStr ''underline'', JStr ''subscript'', JStr ''superscript'',
               JStr ''highlight'']
      \<or> get mark ''type'' = JStr ''textStyle'' \<and> truthy (attr mark ''color''))"

text \<open>
  The marks the loop of the text rule runs over: none when \<open>node.marks\<close> is falsy, the
  elements of an array, the characters of a string; no other value can be iterated.
\<close>

definition marks_of :: "jsval \<Rightarrow> jsval list option" where
  "marks_of node =
     (case get node ''marks'' of
        JArr ms \<Rightarrow> Some ms
      | JStr s \<Rightarrow> Some (map (\<lambda>c. JStr [c]) s)
      | v \<Rightarrow> if truthy v then None else Some [])"

definition text_ok :: "jsval \<Rightarrow> bool" where
  "text_ok node =
     (stringifiable (get node ''text'')
      \<and> (case marks_of node of Some ms \<Rightarrow> list_all mark_ok ms | None \<Rightarrow> False))"

text \<open>
  \<open>all_content P node\<close>: \<open>node.content\<close> is an array whose elements all have \<open>P\<close>, or it
  is falsy (the rules then map over the empty array). On any other content \<open>map\<close> is not
  a function.
\<close>

definition all_content :: "(jsval \<Rightarrow> bool) \<Rightarrow> jsval \<Rightarrow> bool" where
  "all_content P node =
     (case get node ''content'' of JArr xs \<Rightarrow> list_all P xs | c \<Rightarrow> \<not> truthy c)"

lemma all_content_cong [fundef_cong]:
  assumes "node = node'" and "\<And>x. size x < size node' \<Longrightarrow> P x = Q x"
  shows "all_content P node = all_content Q node'"
proof (cases "get node' ''content''")
  case (JArr xs)
  then have "P x = Q x" if "x \<in> set xs" for x
    using that assms(2) size_get by blast
  then have "list_all P xs = list_all Q xs"
    by (simp add: list_all_iff)
  then show ?thesis
    using JArr assms(1) by (simp add: all_content_def)
qed (simp_all add: all_content_def assms(1))

text \<open>
  The nodes on which \<open>processNode\<close> returns something its caller can join: the node is
  neither \<open>null\<close> nor \<open>undefined\<close>, and the values its rule reads are harmless. The rules
  of the leaves do not look at \<open>content\<close>; the three list rules hand the elements of
  \<open>content\<close> to \<open>processListItem\<close> or \<open>processTaskItem\<close>, which want an item that is
  neither \<open>null\<close> nor \<open>undefined\<close> and render its content; every other rule, the
  fallback for a missing or unknown type among them, renders the content of the node.
  What \<open>attrs\<close> is does not matter: an attribute of a missing \<open>attrs\<close>, or of one that is
  not an object, is \<open>undefined\<close>.
\<close>

function convertible_node :: "jsval \<Rightarrow> bool" where
  "convertible_node node =
     (\<not> nullish node
      \<and> (let ty = get node ''type'' in
         if ty = JStr ''text'' then text_ok node
         else if ty \<in> set [JStr ''horizontalRule'', JStr ''hardBreak'', JStr ''drawio'',
                            JStr ''excalidraw'', JStr ''subpages''] then True
         else if ty = JStr ''image'' then
           stringifiable (attr node ''alt'') \<and> stringifiable (attr node ''src'')
           \<and> stringifiable (attr node ''caption'')
         else if ty \<in> set [JStr ''video'', JStr ''youtube'', JStr ''embed''] then
           stringifiable (attr node ''src'')
         else if ty \<in> set [JStr ''mathInline'', JStr ''mathBlock''] then
           stringifiable (attr node ''latex'')
         else if ty = JStr ''mention'' then
           stringifiable (js_or (attr node ''label'') (attr node ''id''))
         else if ty = JStr ''attachment'' then
           stringifiable (attr node ''fileName'') \<and> stringifiable (attr node ''src'')
         else if ty \<in> set [JStr ''bulletList'', JStr ''orderedList'', JStr ''taskList''] then
           all_content (\<lambda>item. \<not> nullish item \<and> all_content convertible_node item) node
         else
           all_content convertible_node node
           \<and> (if ty = JStr ''paragraph'' then stringifiable (attr node ''textAlign'')
              else if ty = JStr ''codeBlock'' then stringifiable (attr node ''language'')
              else if ty = JStr ''heading'' then
                repeatable (js_or (attr node ''level'') (JNum 1))
              else if ty = JStr ''callout'' then
                upper_case_ok (js_or (attr node ''type'') (JStr ''info''))
              else True)))"
  by pat_completeness auto
termination
  by (relation "measure size") simp_all

declare convertible_node.simps [simp del]

definition convertible_item :: "jsval \<Rightarrow> bool" where
  "convertible_item item = (\<not> nullish item \<and> all_content convertible_node item)"

text \<open>
  The entry point returns the empty text for a root that is falsy or has a falsy
  \<open>content\<close>. Any other root is rendered and the result trimmed, which asks for a
  string: every rule gives one, except the text rule when no mark wraps a \<open>text\<close> that
  is not a string.
\<close>

definition string_leaf :: "jsval \<Rightarrow> bool" where
  "string_leaf node =
     ((case get node ''text'' of JStr s \<Rightarrow> True | v \<Rightarrow> \<not> truthy v)
      \<or> (case marks_of node of Some ms \<Rightarrow> list_ex wrapping ms | None \<Rightarrow> False))"

definition convertible :: "jsval \<Rightarrow> bool" where
  "convertible content =
     (if truthy content \<and> truthy (get content ''content'') then
        convertible_node content
        \<and> (if get content ''type'' = JStr ''text'' then string_leaf content else True)
      else True)"

text \<open>
  What the caller of \<open>processNode\<close> needs of its result: a value, and one that can be
  joined with others or put into a template.
\<close>

definition joinable :: "error + jsval \<Rightarrow> bool" where
  "joinable r = (case r of Inr v \<Rightarrow> stringifiable v | Inl e \<Rightarrow> False)"

text \<open>A result that is a string, when there is a result.\<close>

definition string_valued :: "error + jsval \<Rightarrow> bool" where
  "string_valued r = (case r of Inr v \<Rightarrow> is_string v | Inl e \<Rightarrow> True)"

section \<open>Sequencing, mapping and joining\<close>

lemma andThen_Inr [simp]: "andThen (Inr x) f = f x"
  by (simp add: andThen_def)

lemma andThen_Inl [simp]: "andThen (Inl e) f = Inl e"
  by (simp add: andThen_def)

lemma traverse_all_Inr:
  "list_all2 (\<lambda>x y. f x = Inr y) xs ys \<Longrightarrow> traverse f xs = Inr ys"
  by (induction xs ys rule: list_all2_induct) simp_all

lemma js_join_strings: "js_join (map JStr ss) sep = Inr (join_strings ss sep)"
proof -
  have "list_all2 (\<lambda>x y. (if nullish x then Inr [] else to_string x) = Inr y) (map JStr ss) ss"
    by (simp add: list_all2_map1 nullish_def list.rel_refl)
  then show ?thesis
    by (simp add: js_join_def traverse_all_Inr)
qed

lemma js_map_rendered:
  assumes "list_all2 (\<lambda>x r. f x = Inr r) xs rs"
  shows "js_map f (JArr xs) = Inr rs"
  using assms by (simp add: js_map_def elements_def traverse_all_Inr)

lemma map_join_rendered:
  assumes "list_all2 (\<lambda>x r. f x = Inr (JStr r)) xs rs"
  shows "map_join f (JArr xs) sep = Inr (join_strings rs sep)"
proof -
  from assms have "list_all2 (\<lambda>x y. f x = Inr y) xs (map JStr rs)"
    by (simp add: list_all2_map2)
  then have "js_map f (JArr xs) = Inr (map JStr rs)"
    by (rule js_map_rendered)
  then show ?thesis
    by (simp add: map_join_def js_join_strings)
qed

lemma join_strings_empty: "join_strings ss [] = concat ss"
  by (induction ss "[] :: string" rule: join_strings.induct) simp_all

lemma traverse_continuation:
  "traverse (\<lambda>(line, i). andThen (to_string line) (\<lambda>l.
       Inr (if i = 0 then prefix @ '' '' @ l else ''  '' @ l)))
     (zip (map JStr rs) [Suc k..<Suc k + length rs])
   = Inr (map (\<lambda>l. ''  '' @ l) rs)"
proof (induction rs arbitrary: k)
  case Nil
  then show ?case by simp
next
  case (Cons r rs)
  have "[Suc k..<Suc k + length (r # rs)] = Suc k # [Suc (Suc k)..<Suc (Suc k) + length rs]"
    using upt_conv_Cons [of "Suc k" "Suc (Suc k) + length rs"] by simp
  then show ?case
    using Cons.IH [of "Suc k"] by simp
qed

lemma mapi_item_lines:
  "mapi (\<lambda>line i. andThen (to_string line) (\<lambda>l.
       Inr (if i = 0 then prefix @ '' '' @ l else ''  '' @ l))) (map JStr rs)
   = Inr (item_lines prefix rs)"
proof (cases rs)
  case Nil
  then show ?thesis by (simp add: mapi_def item_lines_def)
next
  case (Cons r rest)
  have "[0..<length (r # rest)] = 0 # [Suc 0..<Suc 0 + length rest]"
    using upt_conv_Cons [of 0 "Suc 0 + length rest"] by simp
  then show ?thesis
    using traverse_continuation [of prefix rest 0] Cons
    by (simp add: mapi_def item_lines_def)
qed

lemma js_mapi_rendered:
  assumes "length rs = length xs"
    and "\<And>i. i < length xs \<Longrightarrow> f (xs ! i) i = Inr (rs ! i)"
  shows "js_mapi f (JArr xs) = Inr rs"
proof -
  have "list_all2 (\<lambda>p r. (case p of (x, i) \<Rightarrow> f x i) = Inr r) (zip xs [0..<length xs]) rs"
    using assms by (intro list_all2_all_nthI) simp_all
  then show ?thesis
    by (simp add: js_mapi_def mapi_def elements_def traverse_all_Inr)
qed

section \<open>Rules of the converter on rendered children\<close>

lemma text_plain: "processNode (text_of s) = Inr (JStr s)"
  by (subst processNode.simps) (simp add: text_of_def property_def nullish_def js_or_def)

lemma paragraph_plain: "processNode (paragraph_of s) = Inr (JStr s)"
proof -
  have "list_all2 (\<lambda>c r. processNode c = Inr (JStr r)) [text_of s] [s]"
    by (simp add: text_plain)
  then have "map_join processNode (JArr [text_of s]) [] = Inr s"
    using map_join_rendered [of processNode "[text_of s]" "[s]" "[]"] by simp
  then show ?thesis
    by (subst processNode.simps)
       (simp add: paragraph_of_def node_of_def property_def nullish_def js_or_def attr_def
          opt_prop_def)
qed

lemma processListItem_rendered:
  assumes "\<not> nullish item"
    and "js_or (get item ''content'') (JArr []) = JArr children"
    and "list_all2 (\<lambda>c r. processNode c = Inr (JStr r)) children rs"
  shows "processListItem item prefix = Inr (join_strings (item_lines prefix rs) ''\<newline>'')"
proof -
  from assms(3) have "list_all2 (\<lambda>c r. processNode c = Inr r) children (map JStr rs)"
    by (simp add: list_all2_map2)
  then have "js_map processNode (JArr children) = Inr (map JStr rs)"
    by (rule js_map_rendered)
  then show ?thesis
    using assms(1,2)
    by (subst processListItem.simps) (simp add: property_def mapi_item_lines)
qed

lemma processTaskItem_rendered:
  assumes "\<not> nullish item"
    and "js_or (get item ''content'') (JArr []) = JArr children"
    and "list_all2 (\<lambda>c r. processNode c = Inr (JStr r)) children rs"
  shows "processTaskItem item
         = Inr (''- '' @ (if truthy (attr item ''checked'') then ''[x]'' else ''[ ]'')
                @ '' '' @ concat rs)"
proof -
  have "map_join processNode (JArr children) [] = Inr (concat rs)"
    using assms(3) by (simp add: map_join_rendered join_strings_empty)
  then show ?thesis
    using assms(1,2)
    by (subst processTaskItem.simps) (simp add: property_def attr_def js_or_def)
qed

lemma typed_not_nullish: "get node ''type'' = JStr ty \<Longrightarrow> \<not> nullish node"
  by (auto simp: nullish_def)

lemma taskItem_node_rendered:
  assumes "get node ''type'' = JStr ''taskItem''"
    and "js_or (get node ''content'') (JArr []) = JArr children"
    and "list_all2 (\<lambda>c r. processNode c = Inr (JStr r)) children rs"
  shows "processNode node
         = Inr (JStr (''- '' @ (if truthy (attr node ''checked'') then ''[x]'' else ''[ ]'')
                @ '' '' @ join_strings rs ''\<newline>''))"
proof -
  have "map_join processNode (JArr children) ''\<newline>'' = Inr (join_strings rs ''\<newline>'')"
    using assms(3) by (simp add: map_join_rendered)
  then show ?thesis
    using assms(1,2) typed_not_nullish [OF assms(1)]
    by (subst processNode.simps) (simp add: property_def js_or_def)
qed

lemma bulletList_rendered:
  assumes "get node ''type'' = JStr ''bulletList''"
    and "js_or (get node ''content'') (JArr []) = JArr items"
    and "list_all2 (\<lambda>item s. processListItem item ''-'' = Inr s) items ss"
  shows "processNode node = Inr (JStr (join_strings ss ''\<newline>''))"
proof -
  have "js_map (\<lambda>item. processListItem item ''-'') (JArr items) = Inr ss"
    using assms(3) by (rule js_map_rendered)
  then show ?thesis
    using assms(1,2) typed_not_nullish [OF assms(1)]
    by (subst processNode.simps) (simp add: property_def)
qed

lemma orderedList_rendered:
  assumes "get node ''type'' = JStr ''orderedList''"
    and "js_or (get node ''content'') (JArr []) = JArr items"
    and "length ss = length items"
    and "\<And>i. i < length items
           \<Longrightarrow> processListItem (items ! i) (decimal (i + 1) @ ''.'') = Inr (ss ! i)"
  shows "processNode node = Inr (JStr (join_strings ss ''\<newline>''))"
proof -
  have "js_mapi (\<lambda>item index. processListItem item (decimal (index + 1) @ ''.''))
          (JArr items) = Inr ss"
    using assms(3,4) by (rule js_mapi_rendered)
  then show ?thesis
    using assms(1,2) typed_not_nullish [OF assms(1)]
    by (subst processNode.simps) (simp add: property_def)
qed

lemma taskList_rendered:
  assumes "get node ''type'' = JStr ''taskList''"
    and "js_or (get node ''content'') (JArr []) = JArr items"
    and "list_all2 (\<lambda>item s. processTaskItem item = Inr s) items ss"
  shows "processNode node = Inr (JStr (join_strings ss ''\<newline>''))"
proof -
  have "js_map (\<lambda>item. processTaskItem item) (JArr items) = Inr ss"
    using assms(3) by (rule js_map_rendered)
  then show ?thesis
    using assms(1,2) typed_not_nullish [OF assms(1)]
    by (subst processNode.simps) (simp add: property_def)
qed

lemma fallback_rendered:
  assumes "\<not> nullish node"
    and "get node ''type'' \<notin> JStr ` set recognized"
    and "js_or (get node ''content'') (JArr []) = JArr children"
    and "list_all2 (\<lambda>c r. processNode c = Inr (JStr r)) children rs"
  shows "processNode node = Inr (JStr (concat rs))"
proof -
  have m: "map_join processNode (JArr children) [] = Inr (concat rs)"
    using assms(4) by (simp add: map_join_rendered join_strings_empty)
  show ?thesis
    using assms(1,2) m
    by (subst processNode.simps) (simp add: property_def recognized_def assms(3))
qed

section \<open>The loop over the marks\<close>

lemma foldl_marks_Inl:
  "foldl (\<lambda>current mark. andThen current (\<lambda>textContent. applyMark textContent mark))
     (Inl e) marks = Inl e"
  by (induction marks) simp_all

lemma applyMarks_foldl:
  "applyMarks v marks
   = foldl (\<lambda>current mark. andThen current (\<lambda>textContent. applyMark textContent mark))
       (Inr v) marks"
proof (induction marks arbitrary: v)
  case Nil
  then show ?case by simp
next
  case (Cons mark marks)
  show ?case
  proof (cases "applyMark v mark")
    case (Inl e)
    then show ?thesis by (simp add: foldl_marks_Inl)
  next
    case (Inr t)
    then show ?thesis using Cons.IH [of t] by simp
  qed
qed

lemma text_node_rendered:
  assumes "get node ''type'' = JStr ''text''"
    and "get node ''text'' = JStr t"
    and "js_or (get node ''marks'') (JArr []) = JArr marks"
  shows "processNode node = applyMarks (JStr t) marks"
proof -
  have raw: "js_or (get node ''text'') (JStr '''') = JStr t"
    using assms(2) by (simp add: js_or_def)
  have "(if truthy (get node ''marks'')
         then andThen (iterate (get node ''marks'')) (applyMarks (JStr t))
         else Inr (JStr t)) = applyMarks (JStr t) marks"
    using assms(3) by (auto simp: js_or_def iterate_def split: if_splits)
  then show ?thesis
    using assms(1) typed_not_nullish [OF assms(1)] raw
    by (subst processNode.simps) (simp add: property_def)
qed

lemma applyMark_bold:
  "get mark ''type'' = JStr ''bold'' \<Longrightarrow> applyMark (JStr s) mark = Inr (JStr (''**'' @ s @ ''**''))"
  by (simp add: applyMark_def property_def typed_not_nullish)

lemma applyMark_italic:
  "get mark ''type'' = JStr ''italic'' \<Longrightarrow> applyMark (JStr s) mark = Inr (JStr (''*'' @ s @ ''*''))"
  by (simp add: applyMark_def property_def typed_not_nullish)

lemma applyMark_code:
  "get mark ''type'' = JStr ''code'' \<Longrightarrow> applyMark (JStr s) mark = Inr (JStr (''`'' @ s @ ''`''))"
  by (simp add: applyMark_def property_def typed_not_nullish)

lemma applyMark_decoration:
  assumes "plain_mark mark"
  shows "applyMark (JStr s) mark = Inr (JStr (spec_decoration mark s))"
proof -
  from assms have alive: "\<not> nullish mark"
    and href: "attr mark ''href'' = JUndefined \<or> (\<exists>h. attr mark ''href'' = JStr h)"
    and color: "attr mark ''color'' = JUndefined
                \<or> (\<exists>c. attr mark ''color'' = JStr c \<and> c \<noteq> [])"
    by (auto simp: plain_mark_def split: jsval.splits)
  from href color show ?thesis
    unfolding applyMark_def property_def spec_decoration_def
    by (auto simp: alive mark_attr_def js_or_def Let_def)
qed

lemma applyMarks_decoration:
  "list_all plain_mark marks
   \<Longrightarrow> applyMarks (JStr s) marks
       = Inr (JStr (foldl (\<lambda>wrapped mark. spec_decoration mark wrapped) s marks))"
proof (induction marks arbitrary: s)
  case Nil
  then show ?case by simp
next
  case (Cons mark marks)
  then show ?case
    by (simp add: applyMark_decoration)
qed

section \<open>Trimming\<close>

lemma leading_space_None:
  "leading_space s = None \<longleftrightarrow> (\<forall>w \<in> set white_space. \<not> is_prefix w s)"
  unfolding leading_space_def find_None_iff by blast

lemma trailing_space_None:
  "trailing_space s = None \<longleftrightarrow> (\<forall>w \<in> set white_space. \<not> is_prefix (rev w) (rev s))"
  unfolding trailing_space_def find_None_iff by blast

lemma trimStart_no_leading_space: "leading_space (trimStart s) = None"
proof (induction s rule: trimStart.induct)
  case (1 s)
  show ?case
  proof (cases "leading_space s")
    case None
    then show ?thesis by (simp add: trimStart.simps [of s])
  next
    case (Some w)
    then show ?thesis using 1 by (simp add: trimStart.simps [of s])
  qed
qed

lemma trimEnd_no_trailing_space: "trailing_space (trimEnd s) = None"
proof (induction s rule: trimEnd.induct)
  case (1 s)
  show ?case
  proof (cases "trailing_space s")
    case None
    then show ?thesis by (simp add: trimEnd.simps [of s])
  next
    case (Some w)
    then show ?thesis using 1 by (simp add: trimEnd.simps [of s])
  qed
qed

lemma trimEnd_is_take: "\<exists>n. trimEnd s = take n s"
proof (induction s rule: trimEnd.induct)
  case (1 s)
  show ?case
  proof (cases "trailing_space s")
    case None
    then have "trimEnd s = take (length s) s"
      by (simp add: trimEnd.simps [of s])
    then show ?thesis ..
  next
    case (Some w)
    then obtain n where "trimEnd (take (length s - length w) s) = take n (take (length s - length w) s)"
      using 1 by blast
    then have "trimEnd s = take (min n (length s - length w)) s"
      using Some by (simp add: trimEnd.simps [of s])
    then show ?thesis ..
  qed
qed

lemma is_prefix_take: "is_prefix w (take n s) \<Longrightarrow> is_prefix w s"
proof (induction w s arbitrary: n rule: is_prefix.induct)
  case (3 c p d s)
  then show ?case by (cases n) auto
qed auto

lemma trim_has_no_outer_space:
  "leading_space (trim s) = None \<and> trailing_space (trim s) = None"
proof -
  obtain n where n: "trim s = take n (trimStart s)"
    using trimEnd_is_take [of "trimStart s"] by (auto simp: trim_def)
  have "\<forall>w \<in> set white_space. \<not> is_prefix w (trimStart s)"
    using trimStart_no_leading_space [of s] by (simp add: leading_space_None)
  then have "\<forall>w \<in> set white_space. \<not> is_prefix w (trim s)"
    using n is_prefix_take by metis
  then show ?thesis
    by (simp add: leading_space_None trim_def trimEnd_no_trailing_space)
qed

section \<open>Well-formed trees render\<close>

lemma to_string_shown: "printable v \<Longrightarrow> to_string v = Inr (shown v)"
  by (simp add: printable_def shown_def split: sum.splits)

lemma printable_JStr [simp]: "printable (JStr s)"
  by (simp add: printable_def)

lemma printable_js_or: "printable a \<Longrightarrow> printable b \<Longrightarrow> printable (js_or a b)"
  by (simp add: js_or_def)

lemma printable_wf_attr: "wf_attr k v \<Longrightarrow> printable v"
  by (cases v) (auto simp: wf_attr_def printable_def split: if_splits)

lemma wf_attrs_value:
  assumes "wf_attrs a"
  shows "opt_prop a k = JUndefined \<or> wf_attr k (opt_prop a k)"
proof (cases a)
  case (JObj kvs)
  show ?thesis
  proof (cases "map_of kvs k")
    case None
    then show ?thesis using JObj by (simp add: opt_prop_def nullish_def)
  next
    case (Some v)
    then have "(k, v) \<in> set kvs"
      by (rule map_of_SomeD)
    then have "wf_attr k v"
      using assms JObj by (auto simp: wf_attrs_def list_all_iff)
    then show ?thesis
      using JObj Some by (simp add: opt_prop_def nullish_def)
  qed
qed (simp_all add: opt_prop_def nullish_def)

lemma printable_attr: "wf_attrs (get node ''attrs'') \<Longrightarrow> printable (attr node k)"
  using wf_attrs_value [of "get node ''attrs''" k] printable_wf_attr [of k "attr node k"]
  by (auto simp: attr_def printable_def)

lemma level_hashes:
  assumes "wf_attrs (get node ''attrs'')"
  shows "\<exists>h. repeat_hash (js_or (attr node ''level'') (JNum 1)) = Inr h"
proof -
  have "attr node ''level'' = JUndefined \<or> wf_attr ''level'' (attr node ''level'')"
    using wf_attrs_value [OF assms] by (simp add: attr_def)
  then show ?thesis
    by (cases "attr node ''level''")
       (auto simp: wf_attr_def js_or_def repeat_hash_def)
qed

lemma callout_upper:
  assumes "wf_attrs (get node ''attrs'')"
  shows "\<exists>u. toUpperCase (js_or (attr node ''type'') (JStr ''info'')) = Inr u"
proof -
  have "attr node ''type'' = JUndefined \<or> wf_attr ''type'' (attr node ''type'')"
    using wf_attrs_value [OF assms] by (simp add: attr_def)
  then show ?thesis
    by (cases "attr node ''type''")
       (auto simp: wf_attr_def js_or_def toUpperCase_def)
qed

lemma applyMark_total:
  assumes "wf_mark mark"
  shows "\<exists>s'. applyMark (JStr s) mark = Inr (JStr s')"
proof -
  from assms obtain ty where ty: "property mark ''type'' = Inr (JStr ty)"
    and attrs: "wf_attrs (get mark ''attrs'')"
    by (cases mark; cases "get mark ''type''")
       (auto simp: wf_mark_def is_string_def property_def nullish_def)
  have shown: "to_string (attr mark k) = Inr (shown (attr mark k))"
     "to_string (js_or (attr mark k) (JStr d)) = Inr (shown (js_or (attr mark k) (JStr d)))"
    for k d
    using attrs by (simp_all add: to_string_shown printable_attr printable_js_or)
  show ?thesis
    unfolding applyMark_def by (simp add: ty shown Let_def)
qed

lemma applyMarks_total:
  "list_all wf_mark marks \<Longrightarrow> \<exists>s'. applyMarks (JStr s) marks = Inr (JStr s')"
proof (induction marks arbitrary: s)
  case Nil
  then show ?case by simp
next
  case (Cons mark marks)
  then obtain s' where "applyMark (JStr s) mark = Inr (JStr s')"
    using applyMark_total [of mark s] by auto
  then show ?case
    using Cons by simp
qed

lemma traverse_total:
  "(\<And>x. x \<in> set xs \<Longrightarrow> \<exists>y. f x = Inr y) \<Longrightarrow> \<exists>ys. traverse f xs = Inr ys"
proof (induction xs)
  case Nil
  then show ?case by simp
next
  case (Cons x xs)
  then obtain y ys where "f x = Inr y" and "traverse f xs = Inr ys"
    by (metis list.set_intros)
  then show ?case by simp
qed

lemma rendered_children:
  "(\<And>x. x \<in> set xs \<Longrightarrow> \<exists>r. f x = Inr (JStr r))
   \<Longrightarrow> \<exists>rs. list_all2 (\<lambda>x r. f x = Inr (JStr r)) xs rs"
proof (induction xs)
  case Nil
  then show ?case by simp
next
  case (Cons x xs)
  then obtain r rs where "f x = Inr (JStr r)" and "list_all2 (\<lambda>x r. f x = Inr (JStr r)) xs rs"
    by (metis list.set_intros)
  then have "list_all2 (\<lambda>x r. f x = Inr (JStr r)) (x # xs) (r # rs)"
    by simp
  then show ?case ..
qed

lemma js_map_total:
  "(\<And>x. x \<in> set xs \<Longrightarrow> \<exists>y. f x = Inr y) \<Longrightarrow> \<exists>ys. js_map f (JArr xs) = Inr ys"
  using traverse_total [of xs f] by (simp add: js_map_def elements_def)

lemma js_mapi_total:
  assumes "\<And>x i. x \<in> set xs \<Longrightarrow> \<exists>y. f x i = Inr y"
  shows "\<exists>ys. js_mapi f (JArr xs) = Inr ys"
proof -
  have "\<exists>y. (case p of (x, i) \<Rightarrow> f x i) = Inr y" if "p \<in> set (zip xs [0..<length xs])" for p
  proof -
    obtain x i where p: "p = (x, i)"
      by (cases p)
    then have "x \<in> set xs"
      using that by (auto dest: set_zip_leftD)
    then show ?thesis
      using assms p by simp
  qed
  then show ?thesis
    using traverse_total [of "zip xs [0..<length xs]" "\<lambda>(x, i). f x i"]
    by (simp add: js_mapi_def mapi_def elements_def)
qed

lemma text_rule_total:
  assumes "wf_text (get node ''text'')" and "wf_marks (get node ''marks'')"
  shows "\<exists>s. (if truthy (get node ''marks'') then
                 andThen (iterate (get node ''marks''))
                   (applyMarks (js_or (get node ''text'') (JStr [])))
               else Inr (js_or (get node ''text'') (JStr []))) = Inr (JStr s)"
proof -
  have "\<exists>t. js_or (get node ''text'') (JStr '''') = JStr t"
    using assms(1) by (cases "get node ''text''") (simp_all add: wf_text_def js_or_def)
  then obtain t where t: "js_or (get node ''text'') (JStr '''') = JStr t" ..
  show ?thesis
  proof (cases "get node ''marks''")
    case (JArr ms)
    then have "list_all wf_mark ms"
      using assms(2) by (simp add: wf_marks_def)
    then obtain s where "applyMarks (JStr t) ms = Inr (JStr s)"
      using applyMarks_total by blast
    then show ?thesis
      using JArr t by (simp add: iterate_def)
  qed (use assms(2) t in \<open>simp_all add: wf_marks_def\<close>)
qed

lemma well_formed_parts:
  assumes "well_formed node"
  shows "\<exists>kvs. node = JObj kvs"
    and "\<exists>ty. get node ''type'' = JStr ty"
    and "wf_attrs (get node ''attrs'')"
    and "wf_text (get node ''text'')"
    and "wf_marks (get node ''marks'')"
    and "get node ''content'' = JUndefined
         \<or> (\<exists>cs. get node ''content'' = JArr cs \<and> list_all well_formed cs)"
  using assms
  by (cases node; simp add: well_formed.simps is_string_def split: jsval.splits)+

lemma well_formed_renders:
  "well_formed node
   \<Longrightarrow> (\<exists>s. processNode node = Inr (JStr s))
       \<and> (\<forall>prefix. \<exists>s. processListItem node prefix = Inr s)
       \<and> (\<exists>s. processTaskItem node = Inr s)"
proof (induction node rule: well_formed.induct)
  case (1 node)
  from "1.prems" obtain kvs where node: "node = JObj kvs"
    using well_formed_parts(1) by blast
  from "1.prems" obtain ty where ty: "get node ''type'' = JStr ty"
    using well_formed_parts(2) by blast
  from "1.prems" have attrs: "wf_attrs (get node ''attrs'')"
    and leaf: "wf_text (get node ''text'')" "wf_marks (get node ''marks'')"
    by (rule well_formed_parts)+
  from "1.prems" have content: "get node ''content'' = JUndefined
         \<or> (\<exists>cs. get node ''content'' = JArr cs \<and> list_all well_formed cs)"
    by (rule well_formed_parts)
  have alive: "\<not> nullish node"
    using ty by (rule typed_not_nullish)
  obtain children where kids: "js_or (get node ''content'') (JArr []) = JArr children"
    and below: "\<And>c. c \<in> set children
                 \<Longrightarrow> (\<exists>s. processNode c = Inr (JStr s))
                     \<and> (\<forall>prefix. \<exists>s. processListItem c prefix = Inr s)
                     \<and> (\<exists>s. processTaskItem c = Inr s)"
  proof (cases "get node ''content'' = JUndefined")
    case True
    then have "js_or (get node ''content'') (JArr []) = JArr []"
      by (simp add: js_or_def)
    then show ?thesis
      using that [of "[]"] by simp
  next
    case False
    then obtain cs where cs: "get node ''content'' = JArr cs" and "list_all well_formed cs"
      using content by blast
    then have "\<And>c. c \<in> set cs
                 \<Longrightarrow> (\<exists>s. processNode c = Inr (JStr s))
                     \<and> (\<forall>prefix. \<exists>s. processListItem c prefix = Inr s)
                     \<and> (\<exists>s. processTaskItem c = Inr s)"
      using "1.IH" [OF node cs] by (simp add: list_all_iff)
    moreover have "js_or (get node ''content'') (JArr []) = JArr cs"
      using cs by (simp add: js_or_def)
    ultimately show ?thesis
      using that [of cs] by blast
  qed
  obtain rs where rs: "list_all2 (\<lambda>c r. processNode c = Inr (JStr r)) children rs"
    using rendered_children [of children processNode] below by blast
  have joined: "map_join processNode (JArr children) sep = Inr (join_strings rs sep)" for sep
    using rs by (rule map_join_rendered)
  obtain bullets where bullets:
    "js_map (\<lambda>item. processListItem item ''-'') (JArr children) = Inr bullets"
    using js_map_total [of children "\<lambda>item. processListItem item ''-''"] below by blast
  obtain numbered where numbered:
    "js_mapi (\<lambda>item index. processListItem item (decimal (index + 1) @ ''.''))
       (JArr children) = Inr numbered"
    using js_mapi_total
            [of children "\<lambda>item index. processListItem item (decimal (index + 1) @ ''.'')"]
          below
    by blast
  obtain tasks where tasks: "js_map processTaskItem (JArr children) = Inr tasks"
    using js_map_total [of children processTaskItem] below by blast
  have "\<exists>q. andThen (processNode c) (\<lambda>r. andThen (to_string r) (\<lambda>s. Inr (''> '' @ s))) = Inr q"
    if "c \<in> set children" for c
    using below [OF that] by auto
  then obtain quoted where quoted:
    "js_map (\<lambda>n. andThen (processNode n) (\<lambda>r. andThen (to_string r) (\<lambda>s. Inr (''> '' @ s))))
       (JArr children) = Inr quoted"
    using js_map_total
            [of children
                "\<lambda>n. andThen (processNode n) (\<lambda>r. andThen (to_string r) (\<lambda>s. Inr (''> '' @ s)))"]
    by blast
  have shown: "to_string (attr node k) = Inr (shown (attr node k))"
     "to_string (js_or (attr node k) (JStr d)) = Inr (shown (js_or (attr node k) (JStr d)))"
     "to_string (js_or (js_or (attr node k) (attr node k')) (JStr d))
      = Inr (shown (js_or (js_or (attr node k) (attr node k')) (JStr d)))"
    for k k' d
    using attrs by (simp_all add: to_string_shown printable_attr printable_js_or)
  obtain hashes where hashes: "repeat_hash (js_or (attr node ''level'') (JNum 1)) = Inr hashes"
    using level_hashes [OF attrs] by blast
  obtain upper where upper: "toUpperCase (js_or (attr node ''type'') (JStr ''info'')) = Inr upper"
    using callout_upper [OF attrs] by blast
  obtain leaf_text where leaf_text:
    "(if truthy (get node ''marks'') then
        andThen (iterate (get node ''marks''))
          (applyMarks (js_or (get node ''text'') (JStr [])))
      else Inr (js_or (get node ''text'') (JStr []))) = Inr (JStr leaf_text)"
    using text_rule_total [OF leaf] by blast
  have "\<exists>s. processNode node = Inr (JStr s)"
    by (subst processNode.simps)
       (simp add: property_def alive ty kids joined bullets numbered [simplified] tasks
          quoted [simplified] shown
          hashes upper leaf_text js_or_def [of "JStr _"] Let_def)
  moreover have "\<exists>s. processListItem node prefix = Inr s" for prefix
    using processListItem_rendered [OF alive kids rs] by blast
  moreover have "\<exists>s. processTaskItem node = Inr s"
    using processTaskItem_rendered [OF alive kids rs] by blast
  ultimately show ?case
    by blast
qed

section \<open>The converter reads only the structure\<close>

lemma same_structure_primitive:
  "same_structure JUndefined b \<longleftrightarrow> b = JUndefined"
  "same_structure JNull b \<longleftrightarrow> b = JNull"
  "same_structure (JBool x) b \<longleftrightarrow> b = JBool x"
  "same_structure (JNum n) b \<longleftrightarrow> b = JNum n"
  "same_structure (JStr s) b \<longleftrightarrow> b = JStr s"
  by (simp_all add: same_structure.simps)

lemma same_structure_JArr:
  "same_structure (JArr xs) b \<longleftrightarrow> (\<exists>ys. b = JArr ys \<and> list_all2 same_structure xs ys)"
  by (cases b) (simp_all add: same_structure.simps [of "JArr xs"])

lemma same_structure_JObj:
  "same_structure (JObj kvs) b
   \<longleftrightarrow> (\<exists>kvs'. b = JObj kvs'
         \<and> (\<forall>k. same_property same_structure (map_of kvs k) (map_of kvs' k)))"
proof (cases b)
  case (JObj kvs')
  have "same_property same_structure (map_of kvs k) (map_of kvs' k)"
    if "k \<notin> set (map fst kvs @ map fst kvs')" for k
  proof -
    from that have "map_of kvs k = None" and "map_of kvs' k = None"
      by (simp_all add: map_of_eq_None_iff)
    then show ?thesis
      by (simp add: same_property_def)
  qed
  then have "list_all (\<lambda>k. same_property same_structure (map_of kvs k) (map_of kvs' k))
               (map fst kvs @ map fst kvs')
             \<longleftrightarrow> (\<forall>k. same_property same_structure (map_of kvs k) (map_of kvs' k))"
    unfolding list_all_iff by blast
  then show ?thesis
    using JObj by (simp add: same_structure.simps [of "JObj kvs"])
qed (simp_all add: same_structure.simps [of "JObj kvs"])

lemma same_structure_refl: "same_structure v v"
proof (induction v)
  case (JArr xs)
  then show ?case
    by (simp add: same_structure_JArr list_all2_same)
next
  case (JObj kvs)
  have "same_property same_structure (map_of kvs k) (map_of kvs k)" for k
  proof (cases "map_of kvs k")
    case None
    then show ?thesis by (simp add: same_property_def)
  next
    case (Some v)
    then have "(k, v) \<in> set kvs"
      by (rule map_of_SomeD)
    then have "same_structure v v"
      using JObj by fastforce
    then show ?thesis
      using Some by (simp add: same_property_def)
  qed
  then show ?case
    by (simp add: same_structure_JObj)
qed (simp_all add: same_structure_primitive)

lemma same_truthy: "same_structure a b \<Longrightarrow> truthy a = truthy b"
  by (cases a) (auto simp: same_structure_primitive same_structure_JArr same_structure_JObj)

lemma same_nullish: "same_structure a b \<Longrightarrow> nullish a = nullish b"
  by (cases a)
     (auto simp: nullish_def same_structure_primitive same_structure_JArr same_structure_JObj)

lemma same_is_string: "same_structure a b \<Longrightarrow> (b = JStr s) = (a = JStr s)"
  by (cases a) (auto simp: same_structure_primitive same_structure_JArr same_structure_JObj)

lemma same_get: "same_structure a b \<Longrightarrow> same_structure (get a k) (get b k)"
proof (cases a)
  case (JObj kvs)
  assume "same_structure a b"
  then obtain kvs' where b: "b = JObj kvs'"
    and "same_property same_structure (map_of kvs k) (map_of kvs' k)"
    using JObj by (auto simp: same_structure_JObj)
  then show ?thesis
    using JObj
    by (auto simp: same_property_def same_structure_primitive split: option.splits)
qed (auto simp: same_structure_primitive same_structure_JArr)

lemma same_js_or:
  "same_structure a b \<Longrightarrow> same_structure c d \<Longrightarrow> same_structure (js_or a c) (js_or b d)"
  using same_truthy [of a b] by (simp add: js_or_def)

lemma same_attr: "same_structure a b \<Longrightarrow> same_structure (attr a k) (attr b k)"
  using same_get [of "get a ''attrs''" "get b ''attrs''" k] same_get [of a b "''attrs''"]
        same_nullish [of "get a ''attrs''" "get b ''attrs''"]
  by (simp add: attr_def opt_prop_def same_structure_primitive)

lemma same_has_toString:
  "same_structure (JObj kvs) (JObj kvs')
   \<Longrightarrow> (map_of kvs' ''toString'' = None) = (map_of kvs ''toString'' = None)"
proof -
  assume "same_structure (JObj kvs) (JObj kvs')"
  then have "same_property same_structure (map_of kvs ''toString'') (map_of kvs' ''toString'')"
    by (simp add: same_structure_JObj)
  then show ?thesis
    by (auto simp: same_property_def split: option.splits)
qed

lemma traverse_same:
  assumes "list_all2 same_structure xs ys"
    and "\<And>x y. x \<in> set xs \<Longrightarrow> same_structure x y \<Longrightarrow> f x = g y"
  shows "traverse f xs = traverse g ys"
  using assms by (induction xs ys rule: list_all2_induct) simp_all

lemma same_to_string: "same_structure a b \<Longrightarrow> to_string a = to_string b"
proof (induction a arbitrary: b)
  case (JArr xs)
  then obtain ys where b: "b = JArr ys" and all: "list_all2 same_structure xs ys"
    by (auto simp: same_structure_JArr)
  have "traverse (\<lambda>x. if nullish x then Inr [] else to_string x) xs
        = traverse (\<lambda>x. if nullish x then Inr [] else to_string x) ys"
    using all
  proof (rule traverse_same)
    fix x y
    assume "x \<in> set xs" and "same_structure x y"
    then show "(if nullish x then Inr [] else to_string x)
               = (if nullish y then Inr [] else to_string y)"
      using JArr.IH same_nullish by auto
  qed
  then show ?case
    using b by simp
next
  case (JObj kvs)
  then obtain kvs' where b: "b = JObj kvs'"
    by (auto simp: same_structure_JObj)
  then show ?case
    using same_has_toString [of kvs kvs'] JObj.prems by simp
qed (simp_all add: same_structure_primitive)

lemma same_result_refl: "rel_sum (=) same_structure r r"
  by (cases r) (simp_all add: same_structure_refl)

lemma same_repeat_hash: "same_structure a b \<Longrightarrow> repeat_hash a = repeat_hash b"
proof (cases a)
  case (JObj kvs)
  assume s: "same_structure a b"
  then obtain kvs' where "b = JObj kvs'"
    using JObj by (auto simp: same_structure_JObj)
  then show ?thesis
    using same_has_toString [of kvs kvs'] s JObj by (simp add: repeat_hash_def)
qed (auto simp: same_structure_primitive same_structure_JArr repeat_hash_def)

lemma same_toUpperCase: "same_structure a b \<Longrightarrow> toUpperCase a = toUpperCase b"
  by (cases a)
     (auto simp: same_structure_primitive same_structure_JArr same_structure_JObj
        toUpperCase_def)

lemma same_elements:
  "same_structure a b
   \<Longrightarrow> rel_sum (=) (list_all2 same_structure) (elements a) (elements b)"
  by (cases a)
     (auto simp: same_structure_primitive same_structure_JArr same_structure_JObj
        elements_def)

lemma same_not_array:
  assumes "same_structure c c'" and "\<And>xs. c \<noteq> JArr xs"
  shows "elements c = Inl TypeError" and "elements c' = Inl TypeError"
  using assms
  by (cases c;
      auto simp: same_structure_primitive same_structure_JObj elements_def)+

lemma same_iterate:
  "same_structure a b
   \<Longrightarrow> rel_sum (=) (list_all2 same_structure) (iterate a) (iterate b)"
  by (cases a)
     (auto simp: same_structure_primitive same_structure_JArr same_structure_JObj
        iterate_def list_all2_same same_structure_refl)

lemma same_applyMark:
  assumes "same_structure t t'" and "same_structure m m'"
  shows "rel_sum (=) same_structure (applyMark t m) (applyMark t' m')"
proof -
  have raw: "to_string t' = to_string t"
    using assms(1) by (simp add: same_to_string)
  have alive: "nullish m' = nullish m"
    using assms(2) by (simp add: same_nullish)
  have kind: "(get m' ''type'' = JStr s) = (get m ''type'' = JStr s)" for s
    using same_get [OF assms(2)] by (rule same_is_string)
  have attrs: "to_string (attr m' k) = to_string (attr m k)"
    "to_string (js_or (attr m' k) (JStr d)) = to_string (js_or (attr m k) (JStr d))"
    "truthy (attr m' k) = truthy (attr m k)" for k d
    using same_to_string [OF same_attr [OF assms(2), of k]]
      same_to_string [OF same_js_or [OF same_attr [OF assms(2), of k] same_structure_refl]]
      same_truthy [OF same_attr [OF assms(2), of k]]
    by simp_all
  show ?thesis
    unfolding applyMark_def property_def
    by (simp add: raw alive kind attrs Let_def same_result_refl assms(1))
qed

lemma same_applyMarks:
  "list_all2 same_structure ms ms' \<Longrightarrow> same_structure t t'
   \<Longrightarrow> rel_sum (=) same_structure (applyMarks t ms) (applyMarks t' ms')"
proof (induction ms ms' arbitrary: t t' rule: list_all2_induct)
  case Nil
  then show ?case by simp
next
  case (Cons m ms m' ms')
  have "rel_sum (=) same_structure (applyMark t m) (applyMark t' m')"
    using Cons.prems Cons.hyps(1) by (rule same_applyMark)
  then show ?case
    using Cons.IH by (cases "applyMark t m"; cases "applyMark t' m'") simp_all
qed

lemma same_js_join:
  "list_all2 same_structure rs rs' \<Longrightarrow> js_join rs sep = js_join rs' sep"
proof -
  assume "list_all2 same_structure rs rs'"
  then have "traverse (\<lambda>x. if nullish x then Inr [] else to_string x) rs
             = traverse (\<lambda>x. if nullish x then Inr [] else to_string x) rs'"
  proof (rule traverse_same)
    fix x y
    assume "same_structure x y"
    then show "(if nullish x then Inr [] else to_string x)
               = (if nullish y then Inr [] else to_string y)"
      using same_nullish same_to_string by auto
  qed
  then show ?thesis
    by (simp add: js_join_def)
qed

lemma traverse_same_result:
  assumes "list_all2 same_structure xs ys"
    and "\<And>x y. x \<in> set xs \<Longrightarrow> same_structure x y
           \<Longrightarrow> rel_sum (=) same_structure (f x) (f y)"
  shows "rel_sum (=) (list_all2 same_structure) (traverse f xs) (traverse f ys)"
  using assms
proof (induction xs ys rule: list_all2_induct)
  case Nil
  then show ?case by simp
next
  case (Cons x xs y ys)
  have head: "rel_sum (=) same_structure (f x) (f y)"
    using Cons.prems Cons.hyps(1) by simp
  have tail: "rel_sum (=) (list_all2 same_structure) (traverse f xs) (traverse f ys)"
    using Cons.IH Cons.prems by simp
  show ?case
    using head tail
    by (cases "f x"; cases "f y"; cases "traverse f xs"; cases "traverse f ys") simp_all
qed

lemma same_js_map:
  assumes "same_structure c c'"
    and "\<And>xs x y. c = JArr xs \<Longrightarrow> x \<in> set xs \<Longrightarrow> same_structure x y \<Longrightarrow> f x = f y"
  shows "js_map f c' = js_map f c"
proof (cases c)
  case (JArr xs)
  then obtain ys where c': "c' = JArr ys" and all: "list_all2 same_structure xs ys"
    using assms(1) by (auto simp: same_structure_JArr)
  have "traverse f xs = traverse f ys"
    using all assms(2) [OF JArr] by (rule traverse_same)
  then show ?thesis
    using JArr c' by (simp add: js_map_def elements_def)
qed (use same_not_array [OF assms(1)] in \<open>simp_all add: js_map_def\<close>)

lemma same_mapi:
  assumes "list_all2 same_structure xs ys"
    and "\<And>x y i. x \<in> set xs \<Longrightarrow> same_structure x y \<Longrightarrow> f x i = f y i"
  shows "mapi f xs = mapi f ys"
proof -
  have len: "length xs = length ys"
    using assms(1) by (rule list_all2_lengthD)
  have "list_all2 (\<lambda>p q. (case p of (x, i) \<Rightarrow> f x i) = (case q of (y, j) \<Rightarrow> f y j))
          (zip xs [0..<length xs]) (zip ys [0..<length ys])"
  proof (rule list_all2_all_nthI)
    show "length (zip xs [0..<length xs]) = length (zip ys [0..<length ys])"
      using len by simp
  next
    fix n
    assume "n < length (zip xs [0..<length xs])"
    then have n: "n < length xs"
      by simp
    then have "same_structure (xs ! n) (ys ! n)"
      using assms(1) by (simp add: list_all2_nthD)
    then have "f (xs ! n) n = f (ys ! n) n"
      using assms(2) n by simp
    then show "(case zip xs [0..<length xs] ! n of (x, i) \<Rightarrow> f x i)
               = (case zip ys [0..<length ys] ! n of (y, j) \<Rightarrow> f y j)"
      using n len by simp
  qed
  then have "traverse (\<lambda>(x, i). f x i) (zip xs [0..<length xs])
             = traverse (\<lambda>(x, i). f x i) (zip ys [0..<length ys])"
    by (induction rule: list_all2_induct) simp_all
  then show ?thesis
    by (simp add: mapi_def)
qed

lemma same_js_mapi:
  assumes "same_structure c c'"
    and "\<And>xs x y i. c = JArr xs \<Longrightarrow> x \<in> set xs \<Longrightarrow> same_structure x y \<Longrightarrow> f x i = f y i"
  shows "js_mapi f c' = js_mapi f c"
proof (cases c)
  case (JArr xs)
  then obtain ys where c': "c' = JArr ys" and all: "list_all2 same_structure xs ys"
    using assms(1) by (auto simp: same_structure_JArr)
  have "mapi f xs = mapi f ys"
    using all assms(2) [OF JArr] by (rule same_mapi)
  then show ?thesis
    using JArr c' by (simp add: js_mapi_def elements_def)
qed (use same_not_array [OF assms(1)] in \<open>simp_all add: js_mapi_def\<close>)

lemma same_js_map_result:
  assumes "same_structure c c'"
    and "\<And>xs x y. c = JArr xs \<Longrightarrow> x \<in> set xs \<Longrightarrow> same_structure x y
           \<Longrightarrow> rel_sum (=) same_structure (f x) (f y)"
  shows "rel_sum (=) (list_all2 same_structure) (js_map f c) (js_map f c')"
proof (cases c)
  case (JArr xs)
  then obtain ys where c': "c' = JArr ys" and all: "list_all2 same_structure xs ys"
    using assms(1) by (auto simp: same_structure_JArr)
  have "rel_sum (=) (list_all2 same_structure) (traverse f xs) (traverse f ys)"
    using all assms(2) [OF JArr] by (rule traverse_same_result)
  then show ?thesis
    using JArr c' by (simp add: js_map_def elements_def)
qed (use same_not_array [OF assms(1)] in \<open>simp_all add: js_map_def\<close>)

lemma same_map_join:
  assumes "same_structure c c'"
    and "\<And>xs x y. c = JArr xs \<Longrightarrow> x \<in> set xs \<Longrightarrow> same_structure x y
           \<Longrightarrow> rel_sum (=) same_structure (f x) (f y)"
  shows "map_join f c' sep = map_join f c sep"
proof (cases c)
  case (JArr xs)
  then obtain ys where c': "c' = JArr ys" and all: "list_all2 same_structure xs ys"
    using assms(1) by (auto simp: same_structure_JArr)
  have "rel_sum (=) (list_all2 same_structure) (traverse f xs) (traverse f ys)"
    using all assms(2) [OF JArr] by (rule traverse_same_result)
  then have "andThen (traverse f ys) (\<lambda>rs. js_join rs sep)
             = andThen (traverse f xs) (\<lambda>rs. js_join rs sep)"
    by (cases "traverse f xs"; cases "traverse f ys") (simp_all add: same_js_join)
  then show ?thesis
    using JArr c' by (simp add: map_join_def js_map_def elements_def)
qed (use same_not_array [OF assms(1)] in \<open>simp_all add: map_join_def js_map_def\<close>)

lemma same_text_rule:
  assumes "same_structure a b"
  shows "rel_sum (=) same_structure
           (if truthy (get a ''marks'') then
              andThen (iterate (get a ''marks''))
                (applyMarks (js_or (get a ''text'') (JStr [])))
            else Inr (js_or (get a ''text'') (JStr [])))
           (if truthy (get b ''marks'') then
              andThen (iterate (get b ''marks''))
                (applyMarks (js_or (get b ''text'') (JStr [])))
            else Inr (js_or (get b ''text'') (JStr [])))"
proof -
  have raw: "same_structure (js_or (get a ''text'') (JStr [])) (js_or (get b ''text'') (JStr []))"
    using same_get [OF assms] same_structure_refl by (rule same_js_or)
  have marks: "same_structure (get a ''marks'') (get b ''marks'')"
    using assms by (rule same_get)
  have on: "truthy (get b ''marks'') = truthy (get a ''marks'')"
    using same_truthy [OF marks] by simp
  have "rel_sum (=) same_structure
          (andThen (iterate (get a ''marks'')) (applyMarks (js_or (get a ''text'') (JStr []))))
          (andThen (iterate (get b ''marks'')) (applyMarks (js_or (get b ''text'') (JStr []))))"
    using same_iterate [OF marks] raw
    by (cases "iterate (get a ''marks'')"; cases "iterate (get b ''marks'')")
       (simp_all add: same_applyMarks)
  then show ?thesis
    using raw on by simp
qed

lemma same_structure_renders:
  "same_structure a b
   \<Longrightarrow> rel_sum (=) same_structure (processNode a) (processNode b)
       \<and> (\<forall>prefix. processListItem b prefix = processListItem a prefix)
       \<and> processTaskItem b = processTaskItem a"
proof (induction "size a" arbitrary: a b rule: less_induct)
  case less
  note same = less.prems
  have below: "rel_sum (=) same_structure (processNode x) (processNode y)"
      "processListItem y prefix = processListItem x prefix"
      "processTaskItem y = processTaskItem x"
    if "JArr xs = js_or (get a ''content'') (JArr [])" and "x \<in> set xs"
      and "same_structure x y" for xs x y prefix
    using less.hyps [OF size_content [OF that(1,2)] that(3)] by simp_all
  have alive: "nullish b = nullish a"
    using same_nullish [OF same] by simp
  have kind: "(get b ''type'' = JStr s) = (get a ''type'' = JStr s)" for s
    using same_get [OF same] by (rule same_is_string)
  have content: "same_structure (js_or (get a ''content'') (JArr []))
                   (js_or (get b ''content'') (JArr []))"
    using same_get [OF same] same_structure_refl by (rule same_js_or)
  have joined: "map_join processNode (js_or (get b ''content'') (JArr [])) sep
                = map_join processNode (js_or (get a ''content'') (JArr [])) sep" for sep
    using content below(1) by (intro same_map_join) simp_all
  have bullets: "js_map (\<lambda>item. processListItem item ''-'') (js_or (get b ''content'') (JArr []))
                 = js_map (\<lambda>item. processListItem item ''-'')
                     (js_or (get a ''content'') (JArr []))"
    using content below(2) by (intro same_js_map) simp_all
  have numbered:
    "js_mapi (\<lambda>item index. processListItem item (decimal (index + 1) @ ''.''))
       (js_or (get b ''content'') (JArr []))
     = js_mapi (\<lambda>item index. processListItem item (decimal (index + 1) @ ''.''))
         (js_or (get a ''content'') (JArr []))"
    using content below(2) by (intro same_js_mapi) simp_all
  have tasks: "js_map processTaskItem (js_or (get b ''content'') (JArr []))
               = js_map processTaskItem (js_or (get a ''content'') (JArr []))"
    using content below(3) by (intro same_js_map) simp_all
  have quote: "andThen (processNode y) (\<lambda>r. andThen (to_string r) (\<lambda>s. Inr (''> '' @ s)))
               = andThen (processNode x) (\<lambda>r. andThen (to_string r) (\<lambda>s. Inr (''> '' @ s)))"
    if "JArr xs = js_or (get a ''content'') (JArr [])" and "x \<in> set xs"
      and "same_structure x y" for xs x y
    using below(1) [OF that]
    by (cases "processNode x"; cases "processNode y") (simp_all add: same_to_string)
  have quoted:
    "js_map (\<lambda>n. andThen (processNode n) (\<lambda>r. andThen (to_string r) (\<lambda>s. Inr (''> '' @ s))))
       (js_or (get b ''content'') (JArr []))
     = js_map (\<lambda>n. andThen (processNode n) (\<lambda>r. andThen (to_string r) (\<lambda>s. Inr (''> '' @ s))))
         (js_or (get a ''content'') (JArr []))"
    using content quote [symmetric] by (intro same_js_map) simp_all
  have attr: "same_structure (attr a k) (attr b k)" for k
    using same by (rule same_attr)
  have attrs: "to_string (attr b k) = to_string (attr a k)"
    "to_string (js_or (attr b k) d) = to_string (js_or (attr a k) d)"
    "to_string (js_or (js_or (attr b k) (attr b k')) d)
     = to_string (js_or (js_or (attr a k) (attr a k')) d)"
    "truthy (attr b k) = truthy (attr a k)"
    "truthy (js_or (attr b k) d) = truthy (js_or (attr a k) d)"
    "(attr b k = JStr s) = (attr a k = JStr s)"
    "repeat_hash (js_or (attr b k) d) = repeat_hash (js_or (attr a k) d)"
    "toUpperCase (js_or (attr b k) d) = toUpperCase (js_or (attr a k) d)" for k k' d s
    using same_to_string [OF attr [of k]]
      same_to_string [OF same_js_or [OF attr [of k] same_structure_refl [of d]]]
      same_to_string [OF same_js_or [OF same_js_or [OF attr [of k] attr [of k']]
                                       same_structure_refl [of d]]]
      same_truthy [OF attr [of k]]
      same_truthy [OF same_js_or [OF attr [of k] same_structure_refl [of d]]]
      same_is_string [OF attr [of k], of s]
      same_repeat_hash [OF same_js_or [OF attr [of k] same_structure_refl [of d]]]
      same_toUpperCase [OF same_js_or [OF attr [of k] same_structure_refl [of d]]]
    by simp_all
  have leaf: "rel_sum (=) same_structure
           (if truthy (get a ''marks'') then
              andThen (iterate (get a ''marks''))
                (applyMarks (js_or (get a ''text'') (JStr [])))
            else Inr (js_or (get a ''text'') (JStr [])))
           (if truthy (get b ''marks'') then
              andThen (iterate (get b ''marks''))
                (applyMarks (js_or (get b ''text'') (JStr [])))
            else Inr (js_or (get b ''text'') (JStr [])))"
    using same by (rule same_text_rule)
  have node: "rel_sum (=) same_structure (processNode a) (processNode b)"
    by (subst processNode.simps [of a], subst processNode.simps [of b])
       (simp add: property_def alive kind joined bullets numbered [simplified] tasks
          quoted [simplified] attrs leaf Let_def same_result_refl same_structure_refl
        cong: if_cong)
  have lines: "rel_sum (=) (list_all2 same_structure)
                 (js_map processNode (js_or (get a ''content'') (JArr [])))
                 (js_map processNode (js_or (get b ''content'') (JArr [])))"
    using content below(1) by (intro same_js_map_result) simp_all
  have item: "processListItem b prefix = processListItem a prefix" for prefix
  proof -
    have "mapi (\<lambda>line i. andThen (to_string line) (\<lambda>l.
                  Inr (if i = 0 then prefix @ '' '' @ l else ''  '' @ l))) ls'
          = mapi (\<lambda>line i. andThen (to_string line) (\<lambda>l.
                  Inr (if i = 0 then prefix @ '' '' @ l else ''  '' @ l))) ls"
      if "list_all2 same_structure ls ls'" for ls ls'
      using that by (intro same_mapi [symmetric]) (simp_all add: same_to_string)
    then have "andThen (js_map processNode (js_or (get b ''content'') (JArr []))) (\<lambda>lines.
                 andThen (mapi (\<lambda>line i. andThen (to_string line) (\<lambda>l.
                            Inr (if i = 0 then prefix @ '' '' @ l else ''  '' @ l))) lines)
                   (\<lambda>ls. Inr (join_strings ls ''\<newline>'')))
               = andThen (js_map processNode (js_or (get a ''content'') (JArr []))) (\<lambda>lines.
                   andThen (mapi (\<lambda>line i. andThen (to_string line) (\<lambda>l.
                              Inr (if i = 0 then prefix @ '' '' @ l else ''  '' @ l))) lines)
                     (\<lambda>ls. Inr (join_strings ls ''\<newline>'')))"
      using lines
      by (cases "js_map processNode (js_or (get a ''content'') (JArr []))";
          cases "js_map processNode (js_or (get b ''content'') (JArr []))") simp_all
    then show ?thesis
      by (subst processListItem.simps [of a], subst processListItem.simps [of b])
         (simp add: property_def alive Let_def)
  qed
  have task: "processTaskItem b = processTaskItem a"
    using attrs(5) [of "''checked''" "JBool False"]
    by (subst processTaskItem.simps [of a], subst processTaskItem.simps [of b])
       (simp add: property_def alive joined Let_def attr_def)
  from node item task show ?case
    by blast
qed

section \<open>When the rules return\<close>

lemma isl_andThen: "isl (andThen m f) = (isl m \<or> isl (f (projr m)))"
  by (cases m) simp_all

lemma joinable_andThen: "joinable (andThen m f) = (\<not> isl m \<and> joinable (f (projr m)))"
  by (cases m) (simp_all add: joinable_def)

lemma joinable_Inr [simp]: "joinable (Inr v) = stringifiable v"
  by (simp add: joinable_def)

lemma joinable_Inl [simp]: "joinable (Inl e) = False"
  by (simp add: joinable_def)

lemma joinable_projr: "joinable r = (\<not> isl r \<and> stringifiable (projr r))"
  by (cases r) simp_all

lemma isl_traverse: "isl (traverse f xs) = (\<not> list_all (\<lambda>x. \<not> isl (f x)) xs)"
  by (induction xs) (auto simp: isl_andThen)

lemma projr_traverse:
  "\<not> isl (traverse f xs) \<Longrightarrow> projr (traverse f xs) = map (\<lambda>x. projr (f x)) xs"
proof (induction xs)
  case Nil
  then show ?case by simp
next
  case (Cons x xs)
  then obtain y ys where "f x = Inr y" and "traverse f xs = Inr ys"
    by (cases "f x"; cases "traverse f xs") simp_all
  then show ?case
    using Cons by simp
qed

lemma stringifiable_nullish: "nullish v \<Longrightarrow> stringifiable v"
  by (auto simp: nullish_def)

lemma isl_to_string: "isl (to_string v) = (\<not> stringifiable v)"
proof (induction v rule: to_string.induct)
  case (6 xs)
  have "(\<not> isl (if nullish x then Inr [] else to_string x)) = stringifiable x"
    if "x \<in> set xs" for x
    using 6 [OF that] that by (auto dest: stringifiable_nullish)
  then have "list_all (\<lambda>x. \<not> isl (if nullish x then Inr [] else to_string x)) xs
             = list_all stringifiable xs"
    by (simp add: list_all_iff)
  then show ?case
    by (simp add: isl_andThen isl_traverse)
qed simp_all

lemma stringifiable_js_or: "stringifiable (js_or v (JStr d)) = stringifiable v"
  by (cases v) (simp_all add: js_or_def)

lemma isl_js_join: "isl (js_join vs sep) = (\<not> list_all stringifiable vs)"
proof -
  have "(\<not> isl (if nullish x then Inr [] else to_string x)) = stringifiable x" for x
    by (auto simp: isl_to_string dest: stringifiable_nullish)
  then show ?thesis
    by (simp add: js_join_def isl_andThen isl_traverse)
qed

lemma list_all_joinable:
  "(\<not> isl (traverse f xs) \<and> list_all stringifiable (projr (traverse f xs)))
   = list_all (\<lambda>x. joinable (f x)) xs"
proof (cases "isl (traverse f xs)")
  case True
  then obtain x where "x \<in> set xs" and "isl (f x)"
    by (auto simp: isl_traverse list_all_iff)
  then have "\<not> list_all (\<lambda>x. joinable (f x)) xs"
    by (auto simp: list_all_iff joinable_projr)
  then show ?thesis
    using True by simp
next
  case False
  then have "list_all (\<lambda>x. \<not> isl (f x)) xs"
    by (simp add: isl_traverse)
  then show ?thesis
    using False by (auto simp: projr_traverse list_all_iff joinable_projr)
qed

lemma content_cases:
  obtains (array) xs where "get node ''content'' = JArr xs"
      and "js_or (get node ''content'') (JArr []) = JArr xs"
    | (falsy) "\<not> truthy (get node ''content'')"
      and "js_or (get node ''content'') (JArr []) = JArr []"
      and "\<And>P. all_content P node"
    | (other) "truthy (get node ''content'')"
      and "js_or (get node ''content'') (JArr []) = get node ''content''"
      and "elements (get node ''content'') = Inl TypeError"
      and "\<And>P. \<not> all_content P node"
proof (cases "get node ''content''")
  case (JArr xs)
  then show ?thesis
    using array by (simp add: js_or_def)
next
  case JUndefined
  then show ?thesis using falsy by (simp add: js_or_def all_content_def)
next
  case JNull
  then show ?thesis using falsy by (simp add: js_or_def all_content_def)
next
  case (JBool b)
  then show ?thesis
    using falsy other by (cases b) (simp_all add: js_or_def all_content_def elements_def)
next
  case (JNum n)
  then show ?thesis
    using falsy other by (cases "n = 0") (simp_all add: js_or_def all_content_def elements_def)
next
  case (JStr s)
  then show ?thesis
    using falsy other by (cases "s = []") (simp_all add: js_or_def all_content_def elements_def)
next
  case (JObj kvs)
  then show ?thesis
    using other by (simp add: js_or_def all_content_def elements_def)
qed

lemma isl_map_join_content:
  "isl (map_join f (js_or (get node ''content'') (JArr [])) sep)
   = (\<not> all_content (\<lambda>x. joinable (f x)) node)"
proof (cases node rule: content_cases)
  case (array xs)
  then show ?thesis
    using list_all_joinable [of f xs]
    by (auto simp: map_join_def js_map_def elements_def isl_andThen isl_js_join
          all_content_def)
next
  case falsy
  then show ?thesis
    by (simp add: map_join_def js_map_def elements_def js_join_def)
next
  case other
  then show ?thesis
    by (simp add: map_join_def js_map_def)
qed

lemma isl_js_map_content:
  "isl (js_map f (js_or (get node ''content'') (JArr [])))
   = (\<not> all_content (\<lambda>x. \<not> isl (f x)) node)"
proof (cases node rule: content_cases)
  case (array xs)
  then show ?thesis
    by (simp add: js_map_def elements_def isl_traverse all_content_def)
next
  case falsy
  then show ?thesis
    by (simp add: js_map_def elements_def)
next
  case other
  then show ?thesis
    by (simp add: js_map_def)
qed
lemma list_all_zip_index:
  "list_all (\<lambda>(x, i). P x) (zip xs [k..<k + length xs]) = list_all P xs"
proof (induction xs arbitrary: k)
  case Nil
  then show ?case by simp
next
  case (Cons x xs)
  have "[k..<k + length (x # xs)] = k # [Suc k..<Suc k + length xs]"
    using upt_conv_Cons [of k "Suc k + length xs"] by simp
  then show ?case
    using Cons [of "Suc k"] by simp
qed

lemma isl_mapi:
  assumes "\<And>x i. isl (f x i) = (\<not> Q x)"
  shows "isl (mapi f xs) = (\<not> list_all Q xs)"
proof -
  have "list_all (\<lambda>p. \<not> isl (case p of (x, i) \<Rightarrow> f x i)) (zip xs [0..<0 + length xs])
        = list_all (\<lambda>(x, i). Q x) (zip xs [0..<0 + length xs])"
    by (auto simp: assms list_all_iff)
  then show ?thesis
    using list_all_zip_index [of Q xs 0] by (simp add: mapi_def isl_traverse)
qed

lemma isl_js_mapi_content:
  assumes "\<And>x i. isl (f x i) = (\<not> Q x)"
  shows "isl (js_mapi f (js_or (get node ''content'') (JArr []))) = (\<not> all_content Q node)"
proof (cases node rule: content_cases)
  case (array xs)
  then show ?thesis
    using isl_mapi [of f Q xs] assms by (simp add: js_mapi_def elements_def all_content_def)
next
  case falsy
  then show ?thesis
    by (simp add: js_mapi_def elements_def mapi_def)
next
  case other
  then show ?thesis
    by (simp add: js_mapi_def)
qed

lemma isl_processListItem:
  "isl (processListItem item prefix)
   = (\<not> (\<not> nullish item \<and> all_content (\<lambda>x. joinable (processNode x)) item))"
proof (cases "nullish item")
  case True
  then show ?thesis
    by (subst processListItem.simps) (simp add: property_def)
next
  case False
  have lines: "isl (mapi (\<lambda>line i. andThen (to_string line) (\<lambda>l.
                   Inr (if i = 0 then prefix @ '' '' @ l else ''  '' @ l))) ls)
               = (\<not> list_all stringifiable ls)" for ls
    by (rule isl_mapi) (simp add: isl_andThen isl_to_string)
  show ?thesis
  proof (cases item rule: content_cases)
    case (array xs)
    then show ?thesis
      using list_all_joinable [of processNode xs]
      by (subst processListItem.simps)
         (auto simp: property_def False isl_andThen lines js_map_def elements_def
            all_content_def)
  next
    case falsy
    then show ?thesis
      by (subst processListItem.simps)
         (simp add: property_def False js_map_def elements_def mapi_def)
  next
    case other
    then show ?thesis
      by (subst processListItem.simps) (simp add: property_def False js_map_def)
  qed
qed

lemma isl_processTaskItem:
  "isl (processTaskItem item)
   = (\<not> (\<not> nullish item \<and> all_content (\<lambda>x. joinable (processNode x)) item))"
proof (cases "nullish item")
  case True
  then show ?thesis
    by (subst processTaskItem.simps) (simp add: property_def)
next
  case False
  then show ?thesis
    by (subst processTaskItem.simps)
       (simp add: property_def isl_andThen isl_map_join_content Let_def)
qed

lemma falsy_stringifiable: "\<not> truthy v \<Longrightarrow> stringifiable v"
  by (cases v) simp_all

lemma projr_andThen: "\<not> isl m \<Longrightarrow> projr (andThen m f) = projr (f (projr m))"
  by (cases m) simp_all

lemma joinable_applyMark: "joinable (applyMark t mark) = (mark_ok mark \<and> stringifiable t)"
proof (cases "nullish mark")
  case True
  then show ?thesis
    by (simp add: applyMark_def property_def mark_ok_def)
next
  case False
  then show ?thesis
    unfolding applyMark_def
    by (auto simp: property_def mark_ok_def joinable_andThen isl_to_string Let_def
          stringifiable_js_or falsy_stringifiable)
qed

lemma joinable_applyMarks:
  "joinable (applyMarks t marks) = (stringifiable t \<and> list_all mark_ok marks)"
proof (induction marks arbitrary: t)
  case Nil
  then show ?case by simp
next
  case (Cons mark marks)
  have "joinable (applyMarks t (mark # marks))
        = (joinable (applyMark t mark) \<and> list_all mark_ok marks)"
    by (simp add: joinable_andThen Cons joinable_projr [of "applyMark t mark"])
  then show ?case
    by (auto simp: joinable_applyMark)
qed

lemma applyMark_string:
  assumes "applyMark t mark = Inr t'"
  shows "is_string t' = (is_string t \<or> wrapping mark)"
proof -
  have alive: "\<not> nullish mark"
    using assms by (auto simp: applyMark_def property_def split: if_splits)
  have "is_string (projr (applyMark t mark)) = (is_string t \<or> wrapping mark)"
    if "\<not> isl (applyMark t mark)"
    using that unfolding applyMark_def
    by (auto simp: property_def alive wrapping_def isl_andThen projr_andThen is_string_def
          Let_def split: if_splits)
  then show ?thesis
    using assms by simp
qed

lemma applyMarks_string:
  "applyMarks t marks = Inr v \<Longrightarrow> is_string v = (is_string t \<or> list_ex wrapping marks)"
proof (induction marks arbitrary: t)
  case Nil
  then show ?case by simp
next
  case (Cons mark marks)
  then obtain t' where first: "applyMark t mark = Inr t'" and rest: "applyMarks t' marks = Inr v"
    by (cases "applyMark t mark") simp_all
  show ?case
    using Cons.IH [OF rest] applyMark_string [OF first] by auto
qed

lemma text_rule:
  assumes "get node ''type'' = JStr ''text''"
  shows "processNode node
         = (case marks_of node of
              Some marks \<Rightarrow> applyMarks (js_or (get node ''text'') (JStr '''')) marks
            | None \<Rightarrow> Inl TypeError)"
proof -
  have alive: "\<not> nullish node"
    using assms by (rule typed_not_nullish)
  show ?thesis
    by (subst processNode.simps)
       (auto simp: property_def alive assms marks_of_def iterate_def Let_def
          split: jsval.splits)
qed

lemma joinable_text:
  assumes "get node ''type'' = JStr ''text''"
  shows "joinable (processNode node) = text_ok node"
  by (cases "marks_of node")
     (simp_all add: text_rule [OF assms] text_ok_def joinable_applyMarks stringifiable_js_or)

lemma isl_repeat_hash: "isl (repeat_hash v) = (\<not> repeatable v)"
  by (cases v) (simp_all add: repeat_hash_def repeatable_def)

lemma isl_toUpperCase: "isl (toUpperCase v) = (\<not> upper_case_ok v)"
  by (cases v) (simp_all add: toUpperCase_def upper_case_ok_def)
lemma truthy_js_or_string: "truthy (js_or v (JStr [])) = truthy v"
  by (simp add: js_or_def)

lemma joinable_processNode: "joinable (processNode node) = convertible_node node"
proof (induction node rule: measure_induct_rule [of size])
  case (less node)
  have kids: "all_content (\<lambda>x. joinable (processNode x)) node = all_content convertible_node node"
    by (rule all_content_cong [OF refl]) (rule less)
  have item: "(\<not> nullish item \<and> all_content (\<lambda>x. joinable (processNode x)) item)
              = (\<not> nullish item \<and> all_content convertible_node item)"
    if "size item < size node" for item
  proof -
    have "all_content (\<lambda>x. joinable (processNode x)) item = all_content convertible_node item"
    proof (rule all_content_cong [OF refl])
      fix x :: jsval
      assume "size x < size item"
      then have "size x < size node"
        using that by simp
      then show "joinable (processNode x) = convertible_node x"
        by (rule less)
    qed
    then show ?thesis
      by simp
  qed
  have items: "all_content (\<lambda>item. \<not> nullish item
                                  \<and> all_content (\<lambda>x. joinable (processNode x)) item) node
               = all_content (\<lambda>item. \<not> nullish item \<and> all_content convertible_node item) node"
    by (rule all_content_cong [OF refl]) (rule item)
  have bullets: "isl (js_map (\<lambda>item. processListItem item ''-'')
                        (js_or (get node ''content'') (JArr [])))
                 = (\<not> all_content (\<lambda>item. \<not> nullish item
                                           \<and> all_content convertible_node item) node)"
    by (simp add: isl_js_map_content isl_processListItem items)
  have numbered: "isl (js_mapi (\<lambda>item index. processListItem item (decimal (index + 1) @ ''.''))
                         (js_or (get node ''content'') (JArr [])))
                  = (\<not> all_content (\<lambda>item. \<not> nullish item
                                            \<and> all_content convertible_node item) node)"
    using isl_js_mapi_content
            [of "\<lambda>item index. processListItem item (decimal (index + 1) @ ''.'')"
                "\<lambda>item. \<not> nullish item \<and> all_content (\<lambda>x. joinable (processNode x)) item"
                node]
    by (simp add: isl_processListItem items)
  have tasks: "isl (js_map (\<lambda>item. processTaskItem item)
                      (js_or (get node ''content'') (JArr [])))
               = (\<not> all_content (\<lambda>item. \<not> nullish item
                                         \<and> all_content convertible_node item) node)"
    by (simp add: isl_js_map_content isl_processTaskItem items)
  have "(\<not> isl (andThen (processNode n) (\<lambda>r. andThen (to_string r) (\<lambda>s. Inr (''> '' @ s)))))
        = joinable (processNode n)" for n
    by (simp add: isl_andThen isl_to_string joinable_projr)
  then have quoted: "isl (js_map (\<lambda>n. andThen (processNode n) (\<lambda>r.
                                   andThen (to_string r) (\<lambda>s. Inr (''> '' @ s))))
                       (js_or (get node ''content'') (JArr [])))
                = (\<not> all_content convertible_node node)"
    by (simp only: isl_js_map_content kids)
  show ?case
  proof (cases "nullish node")
    case True
    then show ?thesis
      by (subst processNode.simps, subst convertible_node.simps) (simp add: property_def)
  next
    case alive: False
    show ?thesis
    proof (cases "get node ''type'' = JStr ''text''")
      case True
      then show ?thesis
        by (subst convertible_node.simps) (simp add: joinable_text alive)
    next
      case False
      show ?thesis
        by (subst processNode.simps, subst convertible_node.simps)
           (auto simp: property_def alive False joinable_andThen isl_andThen
              isl_map_join_content kids bullets numbered [simplified] tasks
              quoted [simplified] isl_to_string stringifiable_js_or isl_repeat_hash
              isl_toUpperCase truthy_js_or_string falsy_stringifiable Let_def)
    qed
  qed
qed
lemma string_valued_andThen:
  "string_valued (andThen m f) = (isl m \<or> string_valued (f (projr m)))"
  by (cases m) (simp_all add: string_valued_def)

lemma string_valued_Inr [simp]: "string_valued (Inr v) = is_string v"
  by (simp add: string_valued_def)

lemma string_valued_processNode:
  assumes "get node ''type'' \<noteq> JStr ''text''"
  shows "string_valued (processNode node)"
proof (cases "nullish node")
  case True
  then show ?thesis
    by (subst processNode.simps) (simp add: property_def string_valued_def)
next
  case False
  then show ?thesis
    by (subst processNode.simps)
       (simp add: property_def assms string_valued_andThen is_string_def js_or_def Let_def)
qed

lemma string_valued_text:
  assumes "get node ''type'' = JStr ''text''" and "processNode node = Inr v"
  shows "is_string v = string_leaf node"
proof (cases "marks_of node")
  case None
  then show ?thesis
    using assms by (simp add: text_rule)
next
  case (Some marks)
  then have "applyMarks (js_or (get node ''text'') (JStr '''')) marks = Inr v"
    using assms by (simp add: text_rule)
  then have "is_string v
             = (is_string (js_or (get node ''text'') (JStr '''')) \<or> list_ex wrapping marks)"
    by (rule applyMarks_string)
  moreover have "is_string (js_or (get node ''text'') (JStr ''''))
                 = (case get node ''text'' of JStr s \<Rightarrow> True | v \<Rightarrow> \<not> truthy v)"
    by (cases "get node ''text''") (simp_all add: js_or_def is_string_def)
  ultimately show ?thesis
    using Some by (simp add: string_leaf_def)
qed

lemma processNode_string:
  "(\<exists>s. processNode node = Inr (JStr s))
   = (convertible_node node
      \<and> (if get node ''type'' = JStr ''text'' then string_leaf node else True))"
proof (cases "processNode node")
  case (Inl e)
  then show ?thesis
    using joinable_processNode [of node] by simp
next
  case (Inr v)
  have shape: "is_string v = (if get node ''type'' = JStr ''text'' then string_leaf node else True)"
  proof (cases "get node ''type'' = JStr ''text''")
    case True
    then show ?thesis
      using string_valued_text [OF True Inr] by simp
  next
    case False
    then show ?thesis
      using string_valued_processNode [OF False] Inr by simp
  qed
  have "is_string v \<Longrightarrow> stringifiable v"
    by (cases v) (simp_all add: is_string_def)
  moreover have "(\<exists>s. v = JStr s) = is_string v"
    by (cases v) (simp_all add: is_string_def)
  ultimately show ?thesis
    using joinable_processNode [of node] Inr shape by auto
qed

lemma convert_returns:
  "(\<exists>s. convertProseMirrorToMarkdown content = Inr s) = convertible content"
proof (cases "truthy content \<and> truthy (get content ''content'')")
  case True
  have "(\<exists>s. andThen (processNode content)
                (\<lambda>r. case r of JStr s \<Rightarrow> Inr (trim s) | _ \<Rightarrow> Inl TypeError) = Inr s)
        = (\<exists>s. processNode content = Inr (JStr s))"
    by (cases "processNode content"; cases "projr (processNode content)") auto
  then show ?thesis
    using True by (simp add: convertProseMirrorToMarkdown_def convertible_def processNode_string)
next
  case False
  then show ?thesis
    by (auto simp: convertProseMirrorToMarkdown_def convertible_def)
qed

section \<open>The sub-page placeholder\<close>

text \<open>
  C1. The converter's rule for a \<open>subpages\<close> node emits a label of its own, while the
  caller searches the converted text for \<open>{{SUBPAGES}}\<close>. On a page that consists of one
  \<open>subpages\<close> node the converted text does not contain what the caller looks for, so the
  caller leaves the label in place although a child page exists.
\<close>

theorem subpages_label_is_not_the_placeholder:
  "convertProseMirrorToMarkdown (node_of ''doc'' [node_of ''subpages'' []])
     = Inr (subpages_icon @ '' [Subpages List]'')
   \<and> subpages_icon @ '' [Subpages List]'' \<noteq> ''{{SUBPAGES}}''
   \<and> js_includes (subpages_icon @ '' [Subpages List]'') ''{{SUBPAGES}}'' = False
   \<and> resolveSubpages (subpages_icon @ '' [Subpages List]'')
         [JObj [(''title'', JStr ''Child''), (''id'', JStr ''p1'')]]
       = Inr (subpages_icon @ '' [Subpages List]'')
   \<and> resolveSubpages ''{{SUBPAGES}}''
         [JObj [(''title'', JStr ''Child''), (''id'', JStr ''p1'')]]
       = Inr ''### Subpages\<newline>- [Child](page:p1)''"
  by code_simp

section \<open>Order of the marks\<close>

text \<open>
  C2. A text leaf with the raw text \<open>t\<close> is rendered by a left fold over its marks, in
  their order, starting from \<open>t\<close>: each step hands the text wrapped so far to the next
  mark, so mark 0 is the innermost decoration and the last mark the outermost (a leaf
  without marks folds over no mark). For every sequence of marks whose \<open>attrs.href\<close> is
  absent or a string and whose \<open>attrs.color\<close> is absent or a string that is not empty,
  whatever their kinds and their order, the result is the fold of the decorations of the
  table of the specification: the decoration of
  the last mark lies around the fold of the marks before it, and the decoration of mark
  0 directly around \<open>t\<close>. With the marks bold, italic the result is \<open>*\<close>, \<open>**\<close>, \<open>t\<close>,
  \<open>**\<close>, \<open>*\<close>, with italic, bold it is \<open>**\<close>, \<open>*\<close>, \<open>t\<close>, \<open>*\<close>, \<open>**\<close>; with code, bold it
  is the bold delimiters around the code delimiters, and with bold, code the other way
  round.
\<close>

theorem marks_are_a_left_fold:
  "(get node ''type'' = JStr ''text'' \<and> get node ''text'' = JStr t
      \<and> js_or (get node ''marks'') (JArr []) = JArr marks
    \<longrightarrow> processNode node
          = foldl (\<lambda>current mark. andThen current (\<lambda>textContent. applyMark textContent mark))
              (Inr (JStr t)) marks)
   \<and> (get node ''type'' = JStr ''text'' \<and> get node ''text'' = JStr t
      \<and> js_or (get node ''marks'') (JArr []) = JArr marks \<and> list_all plain_mark marks
    \<longrightarrow> processNode node
          = Inr (JStr (foldl (\<lambda>wrapped mark. spec_decoration mark wrapped) t marks)))
   \<and> (get node ''type'' = JStr ''text'' \<and> get node ''text'' = JStr t
      \<and> get node ''marks'' = JArr (inner @ [outer]) \<and> list_all plain_mark (inner @ [outer])
    \<longrightarrow> processNode node
          = Inr (JStr (spec_decoration outer
                         (foldl (\<lambda>wrapped mark. spec_decoration mark wrapped) t inner))))
   \<and> (get node ''type'' = JStr ''text'' \<and> get node ''text'' = JStr t
      \<and> get node ''marks'' = JArr (innermost # rest) \<and> list_all plain_mark (innermost # rest)
    \<longrightarrow> processNode node
          = Inr (JStr (foldl (\<lambda>wrapped mark. spec_decoration mark wrapped)
                         (spec_decoration innermost t) rest)))
   \<and> (get node ''type'' = JStr ''text'' \<and> get node ''text'' = JStr t
      \<and> get node ''marks'' = JArr [first, second]
    \<longrightarrow> (get first ''type'' = JStr ''bold'' \<and> get second ''type'' = JStr ''italic''
          \<longrightarrow> processNode node = Inr (JStr (''*'' @ ''**'' @ t @ ''**'' @ ''*'')))
        \<and> (get first ''type'' = JStr ''italic'' \<and> get second ''type'' = JStr ''bold''
          \<longrightarrow> processNode node = Inr (JStr (''**'' @ ''*'' @ t @ ''*'' @ ''**'')))
        \<and> (get first ''type'' = JStr ''code'' \<and> get second ''type'' = JStr ''bold''
          \<longrightarrow> processNode node = Inr (JStr (''**'' @ ''`'' @ t @ ''`'' @ ''**'')))
        \<and> (get first ''type'' = JStr ''bold'' \<and> get second ''type'' = JStr ''code''
          \<longrightarrow> processNode node = Inr (JStr (''`'' @ ''**'' @ t @ ''**'' @ ''`''))))"
proof (intro conjI impI)
  assume "get node ''type'' = JStr ''text'' \<and> get node ''text'' = JStr t
      \<and> js_or (get node ''marks'') (JArr []) = JArr marks"
  then have "processNode node = applyMarks (JStr t) marks"
    by (intro text_node_rendered) blast+
  then show "processNode node
          = foldl (\<lambda>current mark. andThen current (\<lambda>textContent. applyMark textContent mark))
              (Inr (JStr t)) marks"
    by (simp only: applyMarks_foldl)
next
  assume leaf: "get node ''type'' = JStr ''text'' \<and> get node ''text'' = JStr t
      \<and> js_or (get node ''marks'') (JArr []) = JArr marks \<and> list_all plain_mark marks"
  then have "processNode node = applyMarks (JStr t) marks"
    by (intro text_node_rendered) blast+
  with leaf show "processNode node
          = Inr (JStr (foldl (\<lambda>wrapped mark. spec_decoration mark wrapped) t marks))"
    by (simp add: applyMarks_decoration)
next
  assume leaf: "get node ''type'' = JStr ''text'' \<and> get node ''text'' = JStr t
      \<and> get node ''marks'' = JArr (inner @ [outer]) \<and> list_all plain_mark (inner @ [outer])"
  then have "processNode node = applyMarks (JStr t) (inner @ [outer])"
    by (intro text_node_rendered) (auto simp: js_or_def)
  also from leaf have "\<dots> = Inr (JStr (foldl (\<lambda>wrapped mark. spec_decoration mark wrapped) t
                                      (inner @ [outer])))"
    by (intro applyMarks_decoration) blast
  finally show "processNode node
          = Inr (JStr (spec_decoration outer
                         (foldl (\<lambda>wrapped mark. spec_decoration mark wrapped) t inner)))"
    by simp
next
  assume leaf: "get node ''type'' = JStr ''text'' \<and> get node ''text'' = JStr t
      \<and> get node ''marks'' = JArr (innermost # rest)
      \<and> list_all plain_mark (innermost # rest)"
  then have "processNode node = applyMarks (JStr t) (innermost # rest)"
    by (intro text_node_rendered) (auto simp: js_or_def)
  also from leaf have "\<dots> = Inr (JStr (foldl (\<lambda>wrapped mark. spec_decoration mark wrapped) t
                                      (innermost # rest)))"
    by (intro applyMarks_decoration) blast
  finally show "processNode node
          = Inr (JStr (foldl (\<lambda>wrapped mark. spec_decoration mark wrapped)
                         (spec_decoration innermost t) rest))"
    by simp
next
  assume "get node ''type'' = JStr ''text'' \<and> get node ''text'' = JStr t
      \<and> get node ''marks'' = JArr [first, second]"
  then have two: "processNode node = applyMarks (JStr t) [first, second]"
    by (intro text_node_rendered) (auto simp: js_or_def)
  {
    assume "get first ''type'' = JStr ''bold'' \<and> get second ''type'' = JStr ''italic''"
    then show "processNode node = Inr (JStr (''*'' @ ''**'' @ t @ ''**'' @ ''*''))"
      using two by (simp add: applyMark_bold applyMark_italic)
  }
  {
    assume "get first ''type'' = JStr ''italic'' \<and> get second ''type'' = JStr ''bold''"
    then show "processNode node = Inr (JStr (''**'' @ ''*'' @ t @ ''*'' @ ''**''))"
      using two by (simp add: applyMark_bold applyMark_italic)
  }
  {
    assume "get first ''type'' = JStr ''code'' \<and> get second ''type'' = JStr ''bold''"
    then show "processNode node = Inr (JStr (''**'' @ ''`'' @ t @ ''`'' @ ''**''))"
      using two by (simp add: applyMark_bold applyMark_code)
  }
  {
    assume "get first ''type'' = JStr ''bold'' \<and> get second ''type'' = JStr ''code''"
    then show "processNode node = Inr (JStr (''`'' @ ''**'' @ t @ ''**'' @ ''`''))"
      using two by (simp add: applyMark_bold applyMark_code)
  }
qed

theorem marks_fold_witness:
  \<open>processNode
     (JObj [(''type'', JStr ''text''), (''text'', JStr ''t''),
            (''marks'', JArr [mark_of ''bold'', mark_of ''italic''])])
     = foldl (\<lambda>current mark. andThen current (\<lambda>textContent. applyMark textContent mark))
         (Inr (JStr ''t'')) [mark_of ''bold'', mark_of ''italic'']
   \<and> processNode
       (JObj [(''type'', JStr ''text''), (''text'', JStr ''t''),
              (''marks'', JArr [mark_of ''bold'', mark_of ''italic''])])
     = Inr (JStr ''***t***'')
   \<and> processNode
       (JObj [(''type'', JStr ''text''), (''text'', JStr ''t''),
              (''marks'', JArr [mark_of ''code'', mark_of ''bold''])])
     = Inr (JStr ''**`t`**'')
   \<and> processNode
       (JObj [(''type'', JStr ''text''), (''text'', JStr ''t''),
              (''marks'', JArr [mark_of ''bold'', mark_of ''code''])])
     = Inr (JStr ''`**t**`'')
   \<and> processNode
       (JObj [(''type'', JStr ''text''), (''text'', JStr ''t''),
              (''marks'',
               JArr [mark_of ''strike'',
                     JObj [(''type'', JStr ''link''), (''attrs'', JObj [(''href'', JStr ''u'')])],
                     mark_of ''underline'', mark_of ''subscript'', mark_of ''superscript'',
                     mark_of ''highlight'',
                     JObj [(''type'', JStr ''textStyle''),
                           (''attrs'', JObj [(''color'', JStr ''red'')])],
                     mark_of ''textStyle'', mark_of ''comment''])])
     = Inr (JStr (''<span style="color: red"><mark style="background-color: yellow">''
                  @ ''<sup><sub><u>[~~t~~](u)</u></sub></sup></mark></span>''))
   \<and> processNode
       (JObj [(''type'', JStr ''text''), (''text'', JStr ''t''),
              (''marks'', JArr [mark_of ''underline'', mark_of ''strike''])])
     = Inr (JStr ''~~<u>t</u>~~'')
   \<and> processNode
       (JObj [(''type'', JStr ''text''), (''text'', JStr ''t''),
              (''marks'', JArr [mark_of ''strike'', mark_of ''underline''])])
     = Inr (JStr ''<u>~~t~~</u>'')\<close>
  using marks_are_a_left_fold
          [where node = "JObj [(''type'', JStr ''text''), (''text'', JStr ''t''),
                     (''marks'', JArr [mark_of ''bold'', mark_of ''italic''])]"
             and t = "''t''" and marks = "[mark_of ''bold'', mark_of ''italic'']"
             and first = "mark_of ''bold''" and second = "mark_of ''italic''"
             and inner = "[mark_of ''bold'']" and outer = "mark_of ''italic''"
             and innermost = "mark_of ''bold''" and rest = "[mark_of ''italic'']"]
        marks_are_a_left_fold
          [where node = "JObj [(''type'', JStr ''text''), (''text'', JStr ''t''),
                     (''marks'', JArr [mark_of ''code'', mark_of ''bold''])]"
             and t = "''t''" and marks = "[mark_of ''code'', mark_of ''bold'']"
             and first = "mark_of ''code''" and second = "mark_of ''bold''"
             and inner = "[mark_of ''code'']" and outer = "mark_of ''bold''"
             and innermost = "mark_of ''code''" and rest = "[mark_of ''bold'']"]
        marks_are_a_left_fold
          [where node = "JObj [(''type'', JStr ''text''), (''text'', JStr ''t''),
                     (''marks'', JArr [mark_of ''bold'', mark_of ''code''])]"
             and t = "''t''" and marks = "[mark_of ''bold'', mark_of ''code'']"
             and first = "mark_of ''bold''" and second = "mark_of ''code''"
             and inner = "[mark_of ''bold'']" and outer = "mark_of ''code''"
             and innermost = "mark_of ''bold''" and rest = "[mark_of ''code'']"]
        marks_are_a_left_fold
          [where node = "JObj [(''type'', JStr ''text''), (''text'', JStr ''t''),
              (''marks'',
               JArr [mark_of ''strike'',
                     JObj [(''type'', JStr ''link''), (''attrs'', JObj [(''href'', JStr ''u'')])],
                     mark_of ''underline'', mark_of ''subscript'', mark_of ''superscript'',
                     mark_of ''highlight'',
                     JObj [(''type'', JStr ''textStyle''),
                           (''attrs'', JObj [(''color'', JStr ''red'')])],
                     mark_of ''textStyle'', mark_of ''comment''])]"
             and t = "''t''"
             and marks = "[mark_of ''strike'',
                     JObj [(''type'', JStr ''link''), (''attrs'', JObj [(''href'', JStr ''u'')])],
                     mark_of ''underline'', mark_of ''subscript'', mark_of ''superscript'',
                     mark_of ''highlight'',
                     JObj [(''type'', JStr ''textStyle''),
                           (''attrs'', JObj [(''color'', JStr ''red'')])],
                     mark_of ''textStyle'', mark_of ''comment'']",
           THEN conjunct2, THEN conjunct1]
        marks_are_a_left_fold
          [where node = "JObj [(''type'', JStr ''text''), (''text'', JStr ''t''),
                     (''marks'', JArr [mark_of ''underline'', mark_of ''strike''])]"
             and t = "''t''"
             and inner = "[mark_of ''underline'']" and outer = "mark_of ''strike''",
           THEN conjunct2, THEN conjunct2, THEN conjunct1]
        marks_are_a_left_fold
          [where node = "JObj [(''type'', JStr ''text''), (''text'', JStr ''t''),
                     (''marks'', JArr [mark_of ''strike'', mark_of ''underline''])]"
             and t = "''t''"
             and innermost = "mark_of ''strike''" and rest = "[mark_of ''underline'']",
           THEN conjunct2, THEN conjunct2, THEN conjunct2, THEN conjunct1]
  by (simp add: js_or_def mark_of_def applyMark_def property_def nullish_def
        plain_mark_def attr_def opt_prop_def spec_decoration_def mark_attr_def)

section \<open>Totality\<close>




section \<open>Block quotes\<close>

text \<open>
  C4. The \<open>blockquote\<close> rule puts \<open>> \<close> in front of the rendering of each child, not
  in front of each line. A quote around a bullet list of two items renders the second
  item on a line that does not start with \<open>> \<close>. The \<open>callout\<close> rule, on the same
  children, does prefix every line.
\<close>

theorem blockquote_leaves_inner_line_unprefixed:
  "processNode (node_of ''blockquote''
       [node_of ''bulletList''
          [node_of ''listItem'' [paragraph_of ''A''],
           node_of ''listItem'' [paragraph_of ''B'']]])
     = Inr (JStr ''> - A\<newline>- B'')
   \<and> split_lines ''> - A\<newline>- B'' = [''> - A'', ''- B'']
   \<and> is_prefix ''> '' ''- B'' = False
   \<and> processNode (node_of ''callout''
       [node_of ''bulletList''
          [node_of ''listItem'' [paragraph_of ''A''],
           node_of ''listItem'' [paragraph_of ''B'']]])
     = Inr (JStr ''> **INFO**\<newline>> - A\<newline>> - B'')"
  by code_simp

section \<open>Bullet and ordered lists\<close>

text \<open>
  C5. A bullet list of the items \<open>A\<close> and \<open>B\<close> gives \<open>- A\<close>, newline, \<open>- B\<close>, and an
  ordered list numbers its items from 1. But \<open>processListItem\<close> gives the marker and
  the two-space indentation to the renderings of the item's children, which it calls
  lines, not to the lines of the item. An item that holds a paragraph and a nested list
  of two items renders in three lines, and the third, a later line of that same item,
  does not start with two spaces: the nested item \<open>C\<close> lands on the top level. An item
  without children renders as the empty text, with no marker at all. The \<open>callout\<close>
  rule, on the same children, does reach every line.
\<close>

theorem list_item_inner_line_not_indented:
  "processListItem
     (node_of ''listItem''
        [paragraph_of ''A'',
         node_of ''bulletList''
           [node_of ''listItem'' [paragraph_of ''B''],
            node_of ''listItem'' [paragraph_of ''C'']]]) ''-''
     = Inr ''- A\<newline>  - B\<newline>- C''
   \<and> split_lines ''- A\<newline>  - B\<newline>- C'' = [''- A'', ''  - B'', ''- C'']
   \<and> is_prefix ''  '' ''- C'' = False
   \<and> convertProseMirrorToMarkdown
       (node_of ''doc''
          [node_of ''bulletList''
             [node_of ''listItem''
                [paragraph_of ''A'',
                 node_of ''bulletList''
                   [node_of ''listItem'' [paragraph_of ''B''],
                    node_of ''listItem'' [paragraph_of ''C'']]]]])
     = Inr ''- A\<newline>  - B\<newline>- C''
   \<and> processListItem (node_of ''listItem'' []) ''-'' = Inr ''''
   \<and> processNode
       (node_of ''callout''
          [paragraph_of ''A'',
           node_of ''bulletList''
             [node_of ''listItem'' [paragraph_of ''B''],
              node_of ''listItem'' [paragraph_of ''C'']]])
     = Inr (JStr ''> **INFO**\<newline>> A\<newline>> - B\<newline>> - C'')
   \<and> convertProseMirrorToMarkdown
       (node_of ''doc''
          [node_of ''bulletList''
             [node_of ''listItem'' [paragraph_of ''A''],
              node_of ''listItem'' [paragraph_of ''B'']]])
     = Inr ''- A\<newline>- B''
   \<and> convertProseMirrorToMarkdown
       (node_of ''doc''
          [node_of ''orderedList''
             [node_of ''listItem'' [paragraph_of ''A''],
              node_of ''listItem'' [paragraph_of ''B'']]])
     = Inr ''1. A\<newline>2. B''"
  by code_simp

section \<open>The fallback rule\<close>

text \<open>
  C6. A node whose \<open>type\<close> is none of the recognized tags (or is missing, or is not a
  string) is rendered as the renderings of its children, concatenated with nothing in
  between; a missing \<open>content\<close> counts as no children. On a well-formed node of an
  unrecognized type this never raises. A node of an unknown type around the single text
  child \<open>x\<close> gives exactly \<open>x\<close>.
\<close>

theorem unrecognized_type_concatenates_children:
  "(\<not> nullish node \<and> get node ''type'' \<notin> JStr ` set recognized
      \<and> js_or (get node ''content'') (JArr []) = JArr children
      \<and> list_all2 (\<lambda>c r. processNode c = Inr (JStr r)) children rs
    \<longrightarrow> processNode node = Inr (JStr (concat rs)))
   \<and> (well_formed node \<and> get node ''type'' \<notin> JStr ` set recognized
    \<longrightarrow> (\<exists>kids texts. js_or (get node ''content'') (JArr []) = JArr kids
          \<and> list_all2 (\<lambda>c r. processNode c = Inr (JStr r)) kids texts
          \<and> processNode node = Inr (JStr (concat texts))))
   \<and> processNode (node_of ''futureWidget'' [text_of ''x'']) = Inr (JStr ''x'')
   \<and> convertProseMirrorToMarkdown (node_of ''futureWidget'' [text_of ''x'']) = Inr ''x''"
proof (intro conjI impI)
  assume "\<not> nullish node \<and> get node ''type'' \<notin> JStr ` set recognized
      \<and> js_or (get node ''content'') (JArr []) = JArr children
      \<and> list_all2 (\<lambda>c r. processNode c = Inr (JStr r)) children rs"
  then show "processNode node = Inr (JStr (concat rs))"
    by (simp add: fallback_rendered)
next
  assume a: "well_formed node \<and> get node ''type'' \<notin> JStr ` set recognized"
  then have alive: "\<not> nullish node"
    using well_formed_parts(2) typed_not_nullish by blast
  have content: "get node ''content'' = JUndefined
         \<or> (\<exists>cs. get node ''content'' = JArr cs \<and> list_all well_formed cs)"
    using a by (intro well_formed_parts) simp
  then obtain kids where kids: "js_or (get node ''content'') (JArr []) = JArr kids"
    and wf: "list_all well_formed kids"
    by (auto simp: js_or_def)
  have "\<exists>r. processNode c = Inr (JStr r)" if "c \<in> set kids" for c
    using that wf well_formed_renders [of c] by (simp add: list_all_iff)
  then obtain texts where texts: "list_all2 (\<lambda>c r. processNode c = Inr (JStr r)) kids texts"
    using rendered_children [of kids processNode] by blast
  have "processNode node = Inr (JStr (concat texts))"
    using alive _ kids texts by (rule fallback_rendered) (use a in simp)
  then show "\<exists>kids texts. js_or (get node ''content'') (JArr []) = JArr kids
          \<and> list_all2 (\<lambda>c r. processNode c = Inr (JStr r)) kids texts
          \<and> processNode node = Inr (JStr (concat texts))"
    using kids texts by blast
next
  have kids: "list_all2 (\<lambda>c r. processNode c = Inr (JStr r)) [text_of ''x''] [''x'']"
    by (simp add: text_plain)
  have "processNode (node_of ''futureWidget'' [text_of ''x'']) = Inr (JStr (concat [''x'']))"
    by (rule fallback_rendered [OF _ _ _ kids])
       (simp_all add: node_of_def nullish_def recognized_def js_or_def)
  then show x: "processNode (node_of ''futureWidget'' [text_of ''x'']) = Inr (JStr ''x'')"
    by simp
  have "trim ''x'' = ''x''"
    by code_simp
  with x show "convertProseMirrorToMarkdown (node_of ''futureWidget'' [text_of ''x''])
               = Inr ''x''"
    by (simp add: convertProseMirrorToMarkdown_def node_of_def)
qed

theorem unrecognized_type_witness:
  "\<not> nullish (JObj [(''content'', JArr [text_of ''a'', paragraph_of ''b''])])
   \<and> get (JObj [(''content'', JArr [text_of ''a'', paragraph_of ''b''])]) ''type''
       \<notin> JStr ` set recognized
   \<and> list_all2 (\<lambda>c r. processNode c = Inr (JStr r))
        [text_of ''a'', paragraph_of ''b''] [''a'', ''b'']
   \<and> processNode (JObj [(''content'', JArr [text_of ''a'', paragraph_of ''b''])])
       = Inr (JStr ''ab'')
   \<and> well_formed (node_of ''futureWidget'' [text_of ''a'', paragraph_of ''b''])
   \<and> (\<exists>texts. processNode (node_of ''futureWidget'' [text_of ''a'', paragraph_of ''b''])
                 = Inr (JStr (concat texts)))"
proof -
  note main = unrecognized_type_concatenates_children
  let ?bare = "JObj [(''content'', JArr [text_of ''a'', paragraph_of ''b''])]"
  let ?widget = "node_of ''futureWidget'' [text_of ''a'', paragraph_of ''b'']"
  have first: "\<not> nullish ?bare \<and> get ?bare ''type'' \<notin> JStr ` set recognized
     \<and> list_all2 (\<lambda>c r. processNode c = Inr (JStr r))
          [text_of ''a'', paragraph_of ''b''] [''a'', ''b'']
     \<and> processNode ?bare = Inr (JStr ''ab'')"
    using main [THEN conjunct1, of ?bare "[text_of ''a'', paragraph_of ''b'']" "[''a'', ''b'']"]
    by (simp add: nullish_def recognized_def js_or_def text_plain paragraph_plain)
  have wf: "well_formed ?widget"
    by code_simp
  moreover have "get ?widget ''type'' \<notin> JStr ` set recognized"
    by (simp add: node_of_def recognized_def)
  ultimately have "\<exists>kids texts. js_or (get ?widget ''content'') (JArr []) = JArr kids
          \<and> list_all2 (\<lambda>c r. processNode c = Inr (JStr r)) kids texts
          \<and> processNode ?widget = Inr (JStr (concat texts))"
    using main [THEN conjunct2, THEN conjunct1, of ?widget] by blast
  then have "\<exists>texts. processNode ?widget = Inr (JStr (concat texts))"
    by blast
  with first wf show ?thesis
    by blast
qed

section \<open>The entry point\<close>

text \<open>
  C7. \<open>convertProseMirrorToMarkdown\<close> returns the empty string when the root is absent
  (or falsy in any other way) and when its \<open>content\<close> field is; otherwise, when the root
  renders to the text \<open>r\<close>, the result is \<open>r\<close> trimmed. Whatever text it returns neither
  starts nor ends with a white-space character.
\<close>

theorem convert_empty_or_trimmed:
  "(\<not> truthy content \<longrightarrow> convertProseMirrorToMarkdown content = Inr '''')
   \<and> (\<not> truthy (get content ''content'')
        \<longrightarrow> convertProseMirrorToMarkdown content = Inr '''')
   \<and> (truthy content \<and> truthy (get content ''content'')
        \<and> processNode content = Inr (JStr r)
        \<longrightarrow> convertProseMirrorToMarkdown content = Inr (trim r))
   \<and> (convertProseMirrorToMarkdown content = Inr s
        \<longrightarrow> (\<forall>w \<in> set white_space. \<not> is_prefix w s \<and> \<not> is_prefix (rev w) (rev s)))"
proof (intro conjI impI)
  assume result: "convertProseMirrorToMarkdown content = Inr s"
  have empty: "trim [] = []"
    by code_simp
  have "\<exists>r. s = trim r"
  proof (cases "truthy content \<and> truthy (get content ''content'')")
    case False
    then have "s = []"
      using result by (auto simp: convertProseMirrorToMarkdown_def split: if_splits)
    then show ?thesis
      using empty by metis
  next
    case True
    then have run: "andThen (processNode content) (\<lambda>r.
                      case r of JStr s \<Rightarrow> Inr (trim s) | _ \<Rightarrow> Inl TypeError) = Inr s"
      using result by (simp add: convertProseMirrorToMarkdown_def)
    show ?thesis
    proof (cases "processNode content")
      case (Inl e)
      then show ?thesis using run by simp
    next
      case (Inr v)
      then show ?thesis using run by (cases v) auto
    qed
  qed
  then obtain r where "s = trim r" ..
  then show "\<forall>w \<in> set white_space. \<not> is_prefix w s \<and> \<not> is_prefix (rev w) (rev s)"
    using trim_has_no_outer_space [of r]
    unfolding leading_space_None trailing_space_None by blast
qed (simp_all add: convertProseMirrorToMarkdown_def)

theorem convert_trimmed_witness:
  "convertProseMirrorToMarkdown JNull = Inr ''''
   \<and> convertProseMirrorToMarkdown (JObj [(''type'', JStr ''doc'')]) = Inr ''''
   \<and> convertProseMirrorToMarkdown (node_of ''doc'' [paragraph_of ''  x y  '']) = Inr ''x y''
   \<and> is_prefix '' '' ''x y'' = False \<and> is_prefix (rev '' '') (rev ''x y'') = False"
proof -
  let ?doc = "node_of ''doc'' [paragraph_of ''  x y  '']"
  note main = convert_empty_or_trimmed
  have "list_all2 (\<lambda>c r. processNode c = Inr (JStr r)) [paragraph_of ''  x y  ''] [''  x y  '']"
    by (simp add: paragraph_plain)
  then have "map_join processNode (JArr [paragraph_of ''  x y  '']) ''\<newline>\<newline>''
             = Inr (join_strings [''  x y  ''] ''\<newline>\<newline>'')"
    by (rule map_join_rendered)
  then have doc: "processNode ?doc = Inr (JStr ''  x y  '')"
    by (subst processNode.simps) (simp add: node_of_def property_def nullish_def js_or_def)
  have t: "trim ''  x y  '' = ''x y''"
    by code_simp
  have "truthy ?doc \<and> truthy (get ?doc ''content'') \<and> processNode ?doc = Inr (JStr ''  x y  '')"
    using doc by (simp add: node_of_def)
  then have "convertProseMirrorToMarkdown ?doc = Inr (trim ''  x y  '')"
    by (rule main [THEN conjunct2, THEN conjunct2, THEN conjunct1, THEN mp])
  then have c: "convertProseMirrorToMarkdown ?doc = Inr ''x y''"
    by (simp only: t)
  have "\<forall>w \<in> set white_space. \<not> is_prefix w ''x y'' \<and> \<not> is_prefix (rev w) (rev ''x y'')"
    using c by (rule main [THEN conjunct2, THEN conjunct2, THEN conjunct2, THEN mp])
  moreover have "'' '' \<in> set white_space"
    by (simp add: white_space_def)
  ultimately have "\<not> is_prefix '' '' ''x y'' \<and> \<not> is_prefix (rev '' '') (rev ''x y'')"
    by (rule bspec)
  moreover have "convertProseMirrorToMarkdown JNull = Inr ''''"
    using main [of JNull] by simp
  moreover have "convertProseMirrorToMarkdown (JObj [(''type'', JStr ''doc'')]) = Inr ''''"
    using main [of "JObj [(''type'', JStr ''doc'')]"] by simp
  ultimately show ?thesis
    using c by blast
qed

section \<open>Task lists\<close>

text \<open>
  C8, as the claim states it, fails: the renderings of an item's children are joined
  with nothing in between, but a newline inside one of them stays. A task item whose
  paragraph holds a hard break renders in two lines.
\<close>

theorem task_item_keeps_inner_newline:
  "processTaskItem
     (node_of ''taskItem''
        [node_of ''paragraph'' [text_of ''a'', node_of ''hardBreak'' [], text_of ''b'']])
     = Inr ''- [ ] a\<newline>b''
   \<and> CHR 0x0A \<in> set ''- [ ] a\<newline>b''"
  by code_simp

text \<open>
  C8, amended. A task list renders each of its items with \<open>processTaskItem\<close> and joins
  them with a newline. An item starts with \<open>- [x]\<close> when \<open>attrs.checked\<close> is true (or
  any other truthy value) and with \<open>- [ ]\<close> when it is false or absent; after one space
  come the renderings of the item's children, joined with nothing in between. So the
  rendered item has no newline when no child's rendering has one. A task item with
  \<open>checked = true\<close> and the text \<open>Done\<close> gives \<open>- [x] Done\<close>.
\<close>

theorem task_item_checkbox_and_flat_children:
  "(\<not> nullish item \<and> js_or (get item ''content'') (JArr []) = JArr children
      \<and> list_all2 (\<lambda>c r. processNode c = Inr (JStr r)) children rs
    \<longrightarrow> processTaskItem item
          = Inr (''- '' @ (if truthy (attr item ''checked'') then ''[x]'' else ''[ ]'')
                 @ '' '' @ concat rs)
        \<and> (list_all (\<lambda>r. CHR 0x0A \<notin> set r) rs
             \<longrightarrow> (\<exists>s. processTaskItem item = Inr s \<and> CHR 0x0A \<notin> set s)))
   \<and> truthy (JBool True) \<and> \<not> truthy (JBool False) \<and> \<not> truthy JUndefined
   \<and> (get tasks ''type'' = JStr ''taskList''
      \<and> js_or (get tasks ''content'') (JArr []) = JArr items
      \<and> list_all2 (\<lambda>item s. processTaskItem item = Inr s) items ss
    \<longrightarrow> processNode tasks = Inr (JStr (join_strings ss ''\<newline>'')))
   \<and> convertProseMirrorToMarkdown
       (node_of ''doc''
          [node_of ''taskList''
             [JObj [(''type'', JStr ''taskItem''),
                    (''attrs'', JObj [(''checked'', JBool True)]),
                    (''content'', JArr [paragraph_of ''Done''])]]])
     = Inr ''- [x] Done''"
proof (intro conjI impI)
  assume a: "\<not> nullish item \<and> js_or (get item ''content'') (JArr []) = JArr children
      \<and> list_all2 (\<lambda>c r. processNode c = Inr (JStr r)) children rs"
  then have "\<not> nullish item" and "js_or (get item ''content'') (JArr []) = JArr children"
    and "list_all2 (\<lambda>c r. processNode c = Inr (JStr r)) children rs"
    by blast+
  then show r: "processTaskItem item
          = Inr (''- '' @ (if truthy (attr item ''checked'') then ''[x]'' else ''[ ]'')
                 @ '' '' @ concat rs)"
    by (rule processTaskItem_rendered)
  assume "list_all (\<lambda>r. CHR 0x0A \<notin> set r) rs"
  then have "CHR 0x0A \<notin> set (concat rs)"
    by (auto simp: list_all_iff)
  then show "\<exists>s. processTaskItem item = Inr s \<and> CHR 0x0A \<notin> set s"
    using r by simp
next
  assume "get tasks ''type'' = JStr ''taskList''
      \<and> js_or (get tasks ''content'') (JArr []) = JArr items
      \<and> list_all2 (\<lambda>item s. processTaskItem item = Inr s) items ss"
  then show "processNode tasks = Inr (JStr (join_strings ss ''\<newline>''))"
    by (simp add: taskList_rendered)
next
  show "convertProseMirrorToMarkdown
       (node_of ''doc''
          [node_of ''taskList''
             [JObj [(''type'', JStr ''taskItem''),
                    (''attrs'', JObj [(''checked'', JBool True)]),
                    (''content'', JArr [paragraph_of ''Done''])]]])
     = Inr ''- [x] Done''"
    by code_simp
qed simp_all

theorem task_item_witness:
  "processTaskItem
     (JObj [(''type'', JStr ''taskItem''), (''attrs'', JObj [(''checked'', JBool False)]),
            (''content'', JArr [paragraph_of ''a'', paragraph_of ''b''])])
     = Inr ''- [ ] ab''
   \<and> list_all (\<lambda>r. CHR 0x0A \<notin> set r) [''a'', ''b'']
   \<and> processNode
       (node_of ''taskList''
          [JObj [(''type'', JStr ''taskItem''), (''attrs'', JObj [(''checked'', JBool False)]),
                 (''content'', JArr [paragraph_of ''a'', paragraph_of ''b''])]])
     = Inr (JStr ''- [ ] ab'')"
proof -
  let ?item = "JObj [(''type'', JStr ''taskItem''), (''attrs'', JObj [(''checked'', JBool False)]),
            (''content'', JArr [paragraph_of ''a'', paragraph_of ''b''])]"
  have item: "processTaskItem ?item = Inr ''- [ ] ab''"
    using task_item_checkbox_and_flat_children
            [THEN conjunct1, of ?item "[paragraph_of ''a'', paragraph_of ''b'']" "[''a'', ''b'']"]
    by (simp add: nullish_def js_or_def attr_def opt_prop_def paragraph_plain)
  have "processNode (node_of ''taskList'' [?item]) = Inr (JStr ''- [ ] ab'')"
    using task_item_checkbox_and_flat_children
            [THEN conjunct2, THEN conjunct2, THEN conjunct2, THEN conjunct2, THEN conjunct1,
             of "node_of ''taskList'' [?item]" "[?item]" "[''- [ ] ab'']"] item
    by (simp add: node_of_def js_or_def)
  with item show ?thesis
    by simp
qed

section \<open>Determinism\<close>

text \<open>
  C9. The conversion is a function of the structure of its input alone. Every tree has
  the same structure as itself, and two trees of the same structure, also when their
  objects list their properties in different orders, convert to the same result,
  character for character (and raise the same exception when they raise).
\<close>

theorem conversion_is_deterministic:
  "same_structure content content
   \<and> (same_structure content content'
        \<longrightarrow> convertProseMirrorToMarkdown content = convertProseMirrorToMarkdown content')"
proof (intro conjI impI)
  show "same_structure content content"
    by (rule same_structure_refl)
next
  assume same: "same_structure content content'"
  have root: "truthy content' = truthy content"
    using same_truthy [OF same] by simp
  have field: "truthy (get content' ''content'') = truthy (get content ''content'')"
    using same_truthy [OF same_get [OF same]] by simp
  have "rel_sum (=) same_structure (processNode content) (processNode content')"
    using same_structure_renders [OF same] by blast
  then have "andThen (processNode content)
               (\<lambda>r. case r of JStr s \<Rightarrow> Inr (trim s) | _ \<Rightarrow> Inl TypeError)
             = andThen (processNode content')
                 (\<lambda>r. case r of JStr s \<Rightarrow> Inr (trim s) | _ \<Rightarrow> Inl TypeError)"
  proof (cases "processNode content"; cases "processNode content'")
    fix v v'
    assume v: "processNode content = Inr v" and v': "processNode content' = Inr v'"
      and "rel_sum (=) same_structure (processNode content) (processNode content')"
    then have "same_structure v v'"
      by simp
    then show ?thesis
      using v v'
      by (cases v)
         (auto simp: same_structure_primitive same_structure_JArr same_structure_JObj)
  qed simp_all
  then show "convertProseMirrorToMarkdown content = convertProseMirrorToMarkdown content'"
    by (simp add: convertProseMirrorToMarkdown_def root field)
qed

theorem conversion_is_deterministic_witness:
  "same_structure
     (JObj [(''type'', JStr ''doc''), (''content'', JArr [paragraph_of ''a''])])
     (JObj [(''content'', JArr [paragraph_of ''a'']), (''type'', JStr ''doc''),
            (''type'', JStr ''hidden'')])
   \<and> convertProseMirrorToMarkdown
       (JObj [(''type'', JStr ''doc''), (''content'', JArr [paragraph_of ''a''])])
     = Inr ''a''
   \<and> convertProseMirrorToMarkdown
       (JObj [(''content'', JArr [paragraph_of ''a'']), (''type'', JStr ''doc''),
              (''type'', JStr ''hidden'')])
     = Inr ''a''"
proof -
  let ?a = "JObj [(''type'', JStr ''doc''), (''content'', JArr [paragraph_of ''a''])]"
  let ?b = "JObj [(''content'', JArr [paragraph_of ''a'']), (''type'', JStr ''doc''),
                  (''type'', JStr ''hidden'')]"
  have same: "same_structure ?a ?b"
    by code_simp
  have a: "convertProseMirrorToMarkdown ?a = Inr ''a''"
    by code_simp
  have "convertProseMirrorToMarkdown ?a = convertProseMirrorToMarkdown ?b"
    using same by (rule conversion_is_deterministic [THEN conjunct2, THEN mp])
  then show ?thesis
    using same a by simp
qed

section \<open>The two renderings of a task item\<close>

text \<open>
  C10. A \<open>taskItem\<close> node is rendered by two rules. A task list hands each of its
  children to \<open>processTaskItem\<close>, which joins the renderings of the item's children with
  the empty string; a \<open>taskItem\<close> that reaches \<open>processNode\<close> from anywhere else has them
  joined with a newline. For the item with the two paragraphs \<open>a\<close> and \<open>b\<close> the two
  renderings differ.
\<close>

theorem task_item_two_renderings:
  "(get tasks ''type'' = JStr ''taskList''
      \<and> js_or (get tasks ''content'') (JArr []) = JArr items
      \<and> list_all2 (\<lambda>item s. processTaskItem item = Inr s) items ss
    \<longrightarrow> processNode tasks = Inr (JStr (join_strings ss ''\<newline>'')))
   \<and> (get node ''type'' = JStr ''taskItem''
      \<and> js_or (get node ''content'') (JArr []) = JArr children
      \<and> list_all2 (\<lambda>c r. processNode c = Inr (JStr r)) children rs
    \<longrightarrow> processTaskItem node
          = Inr (''- '' @ (if truthy (attr node ''checked'') then ''[x]'' else ''[ ]'')
                 @ '' '' @ join_strings rs '''')
        \<and> processNode node
          = Inr (JStr (''- '' @ (if truthy (attr node ''checked'') then ''[x]'' else ''[ ]'')
                 @ '' '' @ join_strings rs ''\<newline>'')))
   \<and> (\<exists>item s t. get item ''type'' = JStr ''taskItem''
         \<and> get item ''content'' = JArr [paragraph_of ''a'', paragraph_of ''b'']
         \<and> processTaskItem item = Inr s \<and> processNode item = Inr (JStr t) \<and> s \<noteq> t)"
proof (intro conjI impI)
  assume "get tasks ''type'' = JStr ''taskList''
      \<and> js_or (get tasks ''content'') (JArr []) = JArr items
      \<and> list_all2 (\<lambda>item s. processTaskItem item = Inr s) items ss"
  then show "processNode tasks = Inr (JStr (join_strings ss ''\<newline>''))"
    by (simp add: taskList_rendered)
next
  assume a: "get node ''type'' = JStr ''taskItem''
      \<and> js_or (get node ''content'') (JArr []) = JArr children
      \<and> list_all2 (\<lambda>c r. processNode c = Inr (JStr r)) children rs"
  then have ty: "get node ''type'' = JStr ''taskItem''"
    and kids: "js_or (get node ''content'') (JArr []) = JArr children"
    and rendered: "list_all2 (\<lambda>c r. processNode c = Inr (JStr r)) children rs"
    by blast+
  have "\<not> nullish node"
    using ty by (rule typed_not_nullish)
  then show "processTaskItem node
          = Inr (''- '' @ (if truthy (attr node ''checked'') then ''[x]'' else ''[ ]'')
                 @ '' '' @ join_strings rs '''')"
    unfolding join_strings_empty using kids rendered by (rule processTaskItem_rendered)
  show "processNode node
          = Inr (JStr (''- '' @ (if truthy (attr node ''checked'') then ''[x]'' else ''[ ]'')
                 @ '' '' @ join_strings rs ''\<newline>''))"
    using ty kids rendered by (rule taskItem_node_rendered)
next
  let ?item = "node_of ''taskItem'' [paragraph_of ''a'', paragraph_of ''b'']"
  have "processTaskItem ?item = Inr ''- [ ] ab''"
    and "processNode ?item = Inr (JStr ''- [ ] a\<newline>b'')"
    by code_simp+
  moreover have "get ?item ''type'' = JStr ''taskItem''"
    and "get ?item ''content'' = JArr [paragraph_of ''a'', paragraph_of ''b'']"
    by (simp_all add: node_of_def)
  moreover have "''- [ ] ab'' \<noteq> ''- [ ] a\<newline>b''"
    by simp
  ultimately show "\<exists>item s t. get item ''type'' = JStr ''taskItem''
         \<and> get item ''content'' = JArr [paragraph_of ''a'', paragraph_of ''b'']
         \<and> processTaskItem item = Inr s \<and> processNode item = Inr (JStr t) \<and> s \<noteq> t"
    by blast
qed

theorem task_item_two_renderings_witness:
  "processTaskItem (node_of ''taskItem'' [paragraph_of ''a'', paragraph_of ''b''])
     = Inr ''- [ ] ab''
   \<and> processNode (node_of ''taskItem'' [paragraph_of ''a'', paragraph_of ''b''])
     = Inr (JStr ''- [ ] a\<newline>b'')
   \<and> processNode
       (node_of ''taskList'' [node_of ''taskItem'' [paragraph_of ''a'', paragraph_of ''b'']])
     = Inr (JStr ''- [ ] ab'')"
proof -
  let ?item = "node_of ''taskItem'' [paragraph_of ''a'', paragraph_of ''b'']"
  have both: "processTaskItem ?item = Inr ''- [ ] ab''
              \<and> processNode ?item = Inr (JStr ''- [ ] a\<newline>b'')"
    using task_item_two_renderings
            [THEN conjunct2, THEN conjunct1,
             of ?item "[paragraph_of ''a'', paragraph_of ''b'']" "[''a'', ''b'']"]
    by (simp add: node_of_def js_or_def attr_def opt_prop_def nullish_def paragraph_plain)
  then have "processNode (node_of ''taskList'' [?item]) = Inr (JStr ''- [ ] ab'')"
    using task_item_two_renderings
            [THEN conjunct1, of "node_of ''taskList'' [?item]" "[?item]" "[''- [ ] ab'']"]
    by (simp add: node_of_def js_or_def)
  with both show ?thesis
    by simp
qed

end
